theory Spec2Isabelle
  imports Main
begin

section \<open>Messages and the conversation history\<close>

text \<open>
  A Python \<^verbatim>\<open>str\<close> is a sequence of Unicode code points and \<^verbatim>\<open>len\<close> counts code
  points, so message contents are lists of code points. Identifiers and capability
  names are only ever compared for equality; they are plain strings.
\<close>

type_synonym pystr = "nat list"

datatype role = System | User | Assistant | Tool

text \<open>One entry of a \<^verbatim>\<open>tool_calls\<close> list, as built by \<^verbatim>\<open>build_tool_call\<close>.\<close>

record tool_call =
  tc_id :: string
  tc_name :: string
  tc_arguments :: string

text \<open>
  Modelled from the spec: the type \<^verbatim>\<open>LLMMessage\<close> is imported from \<^verbatim>\<open>llm.provider\<close>,
  which is not part of the sources at hand. Its four fields are the ones the sources
  read and write; the role ranges over the four roles of the data model, the content is
  a text, \<^verbatim>\<open>tool_calls\<close> is a list (the sources only test it for truth and iterate
  over it, so an absent list and an empty one are the same value \<open>[]\<close>), and
  \<^verbatim>\<open>tool_call_id\<close> is optional.
\<close>

record LLMMessage =
  role :: role
  content :: pystr
  tool_calls :: "tool_call list"
  tool_call_id :: "string option"

type_synonym history = "LLMMessage list"

text \<open>Exceptions: whatever the completion interface raises, and Python's IndexError.\<close>

datatype exn = ProviderError string | IndexError

section \<open>The validator\<close>

datatype violation = FirstNotUser role | ToolWithoutCall nat

text \<open>
  The inner loop of \<^verbatim>\<open>validate_message_sequence\<close>: \<^verbatim>\<open>for j in range(i-1, -1, -1)\<close>
  walks the messages before position \<open>i\<close> from the nearest one backwards, so the
  argument is the reversed prefix \<open>rev (take i history)\<close>.
\<close>

fun found_tc :: "LLMMessage list \<Rightarrow> bool" where
  "found_tc [] = False"
| "found_tc (m # ms) =
     (if role m = Assistant \<and> tool_calls m \<noteq> [] then True
      else if role m = User then False
      else found_tc ms)"

definition validate_message_sequence :: "history \<Rightarrow> violation list" where
  "validate_message_sequence h =
     (if h = [] then []
      else (if role (h ! 0) \<noteq> User then [FirstNotUser (role (h ! 0))] else []) @
           concat (map (\<lambda>i. if role (h ! i) = Tool \<and> \<not> found_tc (rev (take i h))
                              then [ToolWithoutCall i] else [])
                       [0..<length h]))"

text \<open>\<^verbatim>\<open>count_rounds\<close>: the number of user messages.\<close>

definition count_rounds :: "history \<Rightarrow> nat" where
  "count_rounds h = length (filter (\<lambda>m. role m = User) h)"

section \<open>The retention trimmer\<close>

text \<open>Python indexing of a list by an integer: a negative index counts from the end.\<close>

definition py_index :: "'a list \<Rightarrow> int \<Rightarrow> exn + 'a" where
  "py_index xs i =
     (if 0 \<le> i \<and> i < int (length xs) then Inr (xs ! nat i)
      else if i < 0 \<and> - int (length xs) \<le> i then Inr (xs ! nat (int (length xs) + i))
      else Inl IndexError)"

definition round_starts :: "history \<Rightarrow> nat list" where
  "round_starts h = filter (\<lambda>i. role (h ! i) = User) [0..<length h]"

definition total_chars :: "history \<Rightarrow> int" where
  "total_chars h = sum_list (map (\<lambda>m. int (length (content m))) h)"

text \<open>
  Stage A, the round trim. \<^verbatim>\<open>max_rounds\<close> is a Python integer; the index
  \<^verbatim>\<open>round_starts[-max_rounds]\<close> is the first position for \<^verbatim>\<open>max_rounds = 0\<close> and counts
  from the front for a negative \<^verbatim>\<open>max_rounds\<close>, where it can be out of range.
\<close>

definition round_trim :: "int \<Rightarrow> history \<Rightarrow> exn + history" where
  "round_trim max_rounds h =
     (let rs = round_starts h in
      if int (length rs) > max_rounds then
        (case py_index rs (- max_rounds) of
           Inl e \<Rightarrow> Inl e
         | Inr trim_from \<Rightarrow> Inr (drop trim_from h))
      else Inr h)"

text \<open>
  Stage B, the budget trim: the \<^verbatim>\<open>while\<close> loop with its running total. The list
  \<^verbatim>\<open>round_starts\<close> of the source is recomputed from the history after every change of
  the history, so the loop head reads it from the history.
\<close>

function budget_loop :: "int \<Rightarrow> int \<Rightarrow> history \<Rightarrow> history" where
  "budget_loop max_chars tot h =
     (if tot > max_chars \<and> length (round_starts h) > 2 then
        budget_loop max_chars
          (tot - total_chars (take (if length (round_starts h) > 1 then round_starts h ! 1
                                      else length h) h))
          (drop (if length (round_starts h) > 1 then round_starts h ! 1 else length h) h)
      else h)"
  by pat_completeness auto
termination
proof (relation "measure (\<lambda>(max_chars, tot, h). length h)")
  show "wf (measure (\<lambda>(max_chars, tot, h). length h))"
    by simp
next
  fix max_chars tot :: int and h :: history
  assume a: "max_chars < tot \<and> 2 < length (round_starts h)"
  have s: "sorted_wrt (<) (round_starts h)"
    unfolding round_starts_def by (rule sorted_wrt_filter) simp
  have "round_starts h ! 0 < round_starts h ! 1"
    using a by (intro sorted_wrt_nth_less [OF s]) auto
  then have pos: "0 < round_starts h ! 1"
    by simp
  have "round_starts h ! 1 \<in> set (round_starts h)"
    using a by (intro nth_mem) auto
  then have "round_starts h ! 1 < length h"
    by (simp add: round_starts_def)
  with pos a show "((max_chars,
      tot - total_chars (take (if 1 < length (round_starts h) then round_starts h ! 1
                                 else length h) h),
      drop (if 1 < length (round_starts h) then round_starts h ! 1 else length h) h),
      max_chars, tot, h) \<in> measure (\<lambda>(max_chars, tot, h). length h)"
    by simp
qed

declare budget_loop.simps [simp del]

definition budget_trim :: "int \<Rightarrow> history \<Rightarrow> history" where
  "budget_trim max_chars h = budget_loop max_chars (total_chars h) h"

definition MAX_HISTORY_CHARS :: int where
  "MAX_HISTORY_CHARS = 24000"

text \<open>
  \<^verbatim>\<open>_trim_conversation_history\<close>, with the budget as a parameter; the source fixes it
  to \<^verbatim>\<open>MAX_HISTORY_CHARS\<close>.
\<close>

definition trim :: "int \<Rightarrow> int \<Rightarrow> history \<Rightarrow> exn + history" where
  "trim max_rounds max_chars h =
     (if h = [] then Inr h
      else case round_trim max_rounds h of
             Inl e \<Rightarrow> Inl e
           | Inr h1 \<Rightarrow> Inr (budget_trim max_chars h1))"

definition trim_conversation_history :: "int \<Rightarrow> history \<Rightarrow> exn + history" where
  "trim_conversation_history max_rounds h = trim max_rounds MAX_HISTORY_CHARS h"

section \<open>The external interfaces\<close>

text \<open>The dictionary returned by \<^verbatim>\<open>chat_complete\<close>: its text and its tool calls.\<close>

record response =
  resp_content :: pystr
  resp_tool_calls :: "tool_call list"

text \<open>\<^verbatim>\<open>MockSkillResult\<close>: what \<^verbatim>\<open>execute_skill\<close> returns, a failure being a value.\<close>

record skill_result =
  success :: bool
  result :: pystr
  summary :: pystr
  error :: "pystr option"

text \<open>
  The provider and the skill set are objects with state of their own. The state of
  everything outside the agent is one value of type \<open>'w\<close>, which every call may read and
  change; \<open>'d\<close> is the type of a tool definition. \<^verbatim>\<open>chat_complete\<close> may raise;
  \<^verbatim>\<open>chat\<close> is the streaming call, whose chunks the caller concatenates, and may raise as
  well; \<^verbatim>\<open>execute_skill\<close> reports a failure in its result.
\<close>

record ('w, 'd) env =
  get_tool_definitions :: "'w \<Rightarrow> 'd list"
  chat_complete :: "LLMMessage list \<Rightarrow> 'd list option \<Rightarrow> 'w \<Rightarrow> (exn + response) \<times> 'w"
  chat :: "LLMMessage list \<Rightarrow> 'w \<Rightarrow> (exn + pystr list) \<times> 'w"
  execute_skill :: "string \<Rightarrow> 'w \<Rightarrow> skill_result \<times> 'w"

section \<open>The turn orchestrator: \<^verbatim>\<open>DirectAgentSimulator.execute_task\<close>\<close>

text \<open>The string literals of the source, as code points.\<close>

definition SYSTEM_PROMPT :: pystr where
  "SYSTEM_PROMPT = [20320, 26159, 19968, 20010, 65, 73, 21161, 25163, 65292, 27491, 22788,
     20110, 22810, 36718, 23545, 35805, 20013, 12290]"

definition EXEC_FAILED :: pystr where
  "EXEC_FAILED = [25191, 34892, 22833, 36133]"

definition NO_RESULT :: pystr where
  "NO_RESULT = [26080, 32467, 26524]"

definition TRUNCATION_MARKER :: pystr where
  "TRUNCATION_MARKER = [10, 46, 46, 46, 40, 32467, 26524, 24050, 25130, 21462, 21069, 49, 53,
     48, 48, 23383, 31526, 41]"

definition max_tool_rounds :: nat where
  "max_tool_rounds = 5"

definition user_message :: "pystr \<Rightarrow> LLMMessage" where
  "user_message s = \<lparr>role = User, content = s, tool_calls = [], tool_call_id = None\<rparr>"

definition system_message :: "pystr \<Rightarrow> LLMMessage" where
  "system_message s = \<lparr>role = System, content = s, tool_calls = [], tool_call_id = None\<rparr>"

definition assistant_message :: "pystr \<Rightarrow> tool_call list \<Rightarrow> LLMMessage" where
  "assistant_message s tcs =
     \<lparr>role = Assistant, content = s, tool_calls = tcs, tool_call_id = None\<rparr>"

definition tool_message :: "pystr \<Rightarrow> string \<Rightarrow> LLMMessage" where
  "tool_message s i = \<lparr>role = Tool, content = s, tool_calls = [], tool_call_id = Some i\<rparr>"

text \<open>
  \<^verbatim>\<open>result.result if result.success else (result.error or "...")\<close>, and then
  \<^verbatim>\<open>str(tool_result_str) if tool_result_str else "..."\<close>.
\<close>

definition tool_result_str :: "skill_result \<Rightarrow> pystr" where
  "tool_result_str r =
     (if success r then result r
      else (case error r of None \<Rightarrow> EXEC_FAILED
            | Some e \<Rightarrow> if e = [] then EXEC_FAILED else e))"

definition tool_content :: "skill_result \<Rightarrow> pystr" where
  "tool_content r = (if tool_result_str r \<noteq> [] then tool_result_str r else NO_RESULT)"

text \<open>The loop \<^verbatim>\<open>for tc in tool_calls\<close>: one tool message per call, in order.\<close>

fun run_tools ::
  "('w, 'd) env \<Rightarrow> tool_call list \<Rightarrow> LLMMessage list \<Rightarrow> 'w \<Rightarrow> LLMMessage list \<times> 'w" where
  "run_tools env [] messages w = (messages, w)"
| "run_tools env (tc # tcs) messages w =
     (case execute_skill env (tc_name tc) w of
        (r, w1) \<Rightarrow> run_tools env tcs (messages @ [tool_message (tool_content r) (tc_id tc)]) w1)"

text \<open>
  The loop \<^verbatim>\<open>for tool_round in range(max_tool_rounds)\<close>. Its state is the transcript
  \<^verbatim>\<open>messages\<close> and the local variable \<^verbatim>\<open>content\<close>, the text of the latest completion
  (\<open>None\<close> before the first one).
\<close>

fun tool_loop ::
  "('w, 'd) env \<Rightarrow> 'd list \<Rightarrow> nat \<Rightarrow> LLMMessage list \<Rightarrow> pystr option \<Rightarrow> 'w
     \<Rightarrow> (exn + LLMMessage list \<times> pystr option) \<times> 'w" where
  "tool_loop env tool_definitions 0 messages c w = (Inr (messages, c), w)"
| "tool_loop env tool_definitions (Suc n) messages c w =
     (if tool_definitions = [] then (Inr (messages, c), w)
      else case chat_complete env messages (Some tool_definitions) w of
             (Inl e, w1) \<Rightarrow> (Inl e, w1)
           | (Inr response, w1) \<Rightarrow>
               if resp_tool_calls response = [] then (Inr (messages, Some (resp_content response)), w1)
               else (case run_tools env (resp_tool_calls response)
                            (messages @ [assistant_message (resp_content response)
                                           (resp_tool_calls response)]) w1 of
                       (messages1, w2) \<Rightarrow>
                         tool_loop env tool_definitions n messages1
                           (Some (resp_content response)) w2))"

text \<open>Python's \<^verbatim>\<open>str.isspace\<close> on one character, and \<^verbatim>\<open>str.strip()\<close>.\<close>

definition py_isspace :: "nat \<Rightarrow> bool" where
  "py_isspace c \<longleftrightarrow> c \<in> set [9, 10, 11, 12, 13, 28, 29, 30, 31, 32, 133, 160, 5760, 8192,
     8193, 8194, 8195, 8196, 8197, 8198, 8199, 8200, 8201, 8202, 8232, 8233, 8239, 8287,
     12288]"

definition py_strip :: "pystr \<Rightarrow> pystr" where
  "py_strip s = rev (dropWhile py_isspace (rev (dropWhile py_isspace s)))"

text \<open>The body of the loop that commits the new messages: an oversized tool result is cut.\<close>

definition truncate_tool_result :: "LLMMessage \<Rightarrow> LLMMessage" where
  "truncate_tool_result msg =
     (if role msg = Tool \<and> content msg \<noteq> [] \<and> length (content msg) > 1500
      then \<lparr>role = role msg, content = take 1500 (content msg) @ TRUNCATION_MARKER,
            tool_calls = [], tool_call_id = tool_call_id msg\<rparr>
      else msg)"

text \<open>
  \<^verbatim>\<open>execute_task\<close> up to and including the update of the history: the reply and the
  history with the new messages appended, or the exception with the history as it was.
\<close>

definition commit_task ::
  "('w, 'd) env \<Rightarrow> pystr \<Rightarrow> history \<times> 'w \<Rightarrow> (exn + pystr) \<times> history \<times> 'w" where
  "commit_task env task s =
     (case s of (conversation_history, w) \<Rightarrow>
        (case tool_loop env (get_tool_definitions env w) max_tool_rounds
                ([system_message SYSTEM_PROMPT] @ conversation_history @ [user_message task])
                None w of
           (Inl e, w1) \<Rightarrow> (Inl e, conversation_history, w1)
         | (Inr (messages, c), w1) \<Rightarrow>
             (case chat env messages w1 of
                (Inl e, w2) \<Rightarrow> (Inl e, conversation_history, w2)
              | (Inr chunks, w2) \<Rightarrow>
                  (Inr (concat chunks),
                   conversation_history
                     @ map truncate_tool_result (drop (1 + length conversation_history) messages)
                     @ (if py_strip (concat chunks) \<noteq> []
                        then [assistant_message (concat chunks) []] else []),
                   w2))))"

text \<open>
  \<^verbatim>\<open>execute_task\<close>: the commit, then the trim with \<^verbatim>\<open>max_rounds=6\<close>. An exception of
  the trim would leave the history as committed.
\<close>

definition execute_task ::
  "('w, 'd) env \<Rightarrow> pystr \<Rightarrow> history \<times> 'w \<Rightarrow> (exn + pystr) \<times> history \<times> 'w" where
  "execute_task env task s =
     (case commit_task env task s of
        (Inl e, h, w) \<Rightarrow> (Inl e, h, w)
      | (Inr full_response, h, w) \<Rightarrow>
          (case trim_conversation_history 6 h of
             Inl e \<Rightarrow> (Inl e, h, w)
           | Inr h1 \<Rightarrow> (Inr full_response, h1, w)))"

text \<open>A session: the turns one after the other, whatever each of them returns.\<close>

fun run_tasks :: "('w, 'd) env \<Rightarrow> pystr list \<Rightarrow> history \<times> 'w \<Rightarrow> history \<times> 'w" where
  "run_tasks env [] s = s"
| "run_tasks env (task # tasks) s = run_tasks env tasks (snd (execute_task env task s))"

section \<open>The end-to-end engine: \<^verbatim>\<open>E2EConversationEngine\<close>\<close>

text \<open>
  \<^verbatim>\<open>_trim_history\<close>: the same two stages, without the test for an empty history.
\<close>

definition trim_history :: "int \<Rightarrow> history \<Rightarrow> exn + history" where
  "trim_history max_rounds h =
     (case round_trim max_rounds h of
        Inl e \<Rightarrow> Inl e
      | Inr h1 \<Rightarrow> Inr (budget_trim MAX_HISTORY_CHARS h1))"

text \<open>
  \<^verbatim>\<open>chat\<close> up to and including the update of the history. The engine's system prompt
  is a long class constant that no property reads; it is the parameter \<open>prompt\<close>. The
  engine passes no tool definitions.
\<close>

definition e2e_commit ::
  "('w, 'd) env \<Rightarrow> pystr \<Rightarrow> pystr \<Rightarrow> history \<times> 'w \<Rightarrow> (exn + pystr) \<times> history \<times> 'w" where
  "e2e_commit env prompt user_input s =
     (case s of (conversation_history, w) \<Rightarrow>
        (case chat_complete env
                ([system_message prompt] @ conversation_history @ [user_message user_input])
                None w of
           (Inl e, w1) \<Rightarrow> (Inl e, conversation_history, w1)
         | (Inr response, w1) \<Rightarrow>
             (Inr (resp_content response),
              conversation_history
                @ [user_message user_input, assistant_message (resp_content response) []],
              w1)))"

definition e2e_chat ::
  "('w, 'd) env \<Rightarrow> pystr \<Rightarrow> int \<Rightarrow> pystr \<Rightarrow> history \<times> 'w
     \<Rightarrow> (exn + pystr) \<times> history \<times> 'w" where
  "e2e_chat env prompt max_rounds user_input s =
     (case e2e_commit env prompt user_input s of
        (Inl e, h, w) \<Rightarrow> (Inl e, h, w)
      | (Inr assistant_reply, h, w) \<Rightarrow>
          (case trim_history max_rounds h of
             Inl e \<Rightarrow> (Inl e, h, w)
           | Inr h1 \<Rightarrow> (Inr assistant_reply, h1, w)))"

fun run_chats ::
  "('w, 'd) env \<Rightarrow> pystr \<Rightarrow> int \<Rightarrow> pystr list \<Rightarrow> history \<times> 'w \<Rightarrow> history \<times> 'w" where
  "run_chats env prompt max_rounds [] s = s"
| "run_chats env prompt max_rounds (q # qs) s =
     run_chats env prompt max_rounds qs (snd (e2e_chat env prompt max_rounds q s))"

section \<open>The programmable provider and skill set of the tests\<close>

text \<open>
  \<^verbatim>\<open>MockLLMProvider\<close> and \<^verbatim>\<open>MockSkillSet\<close>: the queue of preset responses with the index
  of the next one, the preset skill results by name, and the tool definitions that
  \<^verbatim>\<open>get_tool_definitions\<close> returns (a test replaces the method to return none). The call
  logs of the provider are left out: no call reads them.
\<close>

record mock_world =
  responses :: "response list"
  call_idx :: nat
  results :: "(string \<times> skill_result) list"
  definitions :: "string list"

definition NO_MORE_RESPONSES :: pystr where
  "NO_MORE_RESPONSES = [91, 77, 111, 99, 107, 93, 32, 78, 111, 32, 109, 111, 114, 101, 32, 114,
     101, 115, 112, 111, 110, 115, 101, 115]"

definition UNKNOWN_SKILL :: pystr where
  "UNKNOWN_SKILL = [85, 110, 107, 110, 111, 119, 110, 32, 115, 107, 105, 108, 108]"

definition mock_chat_complete ::
  "LLMMessage list \<Rightarrow> string list option \<Rightarrow> mock_world \<Rightarrow> (exn + response) \<times> mock_world" where
  "mock_chat_complete messages tools w =
     (if call_idx w < length (responses w)
      then (Inr (responses w ! call_idx w), w\<lparr>call_idx := call_idx w + 1\<rparr>)
      else (Inr \<lparr>resp_content = [], resp_tool_calls = []\<rparr>, w))"

text \<open>\<^verbatim>\<open>for i in range(0, len(content), 20): yield content[i:i+20]\<close>\<close>

fun chunks20 :: "pystr \<Rightarrow> pystr list" where
  "chunks20 s = (if s = [] then [] else take 20 s # chunks20 (drop 20 s))"

declare chunks20.simps [simp del]

definition mock_chat :: "LLMMessage list \<Rightarrow> mock_world \<Rightarrow> (exn + pystr list) \<times> mock_world" where
  "mock_chat messages w =
     (if call_idx w < length (responses w)
      then (Inr (chunks20 (resp_content (responses w ! call_idx w))),
            w\<lparr>call_idx := call_idx w + 1\<rparr>)
      else (Inr [NO_MORE_RESPONSES], w))"

definition mock_execute_skill :: "string \<Rightarrow> mock_world \<Rightarrow> skill_result \<times> mock_world" where
  "mock_execute_skill skill_name w =
     (case map_of (results w) skill_name of
        Some r \<Rightarrow> (r, w)
      | None \<Rightarrow> (\<lparr>success = False, result = [], summary = [], error = Some UNKNOWN_SKILL\<rparr>, w))"

definition mock_env :: "(mock_world, string) env" where
  "mock_env = \<lparr>get_tool_definitions = definitions, chat_complete = mock_chat_complete,
     chat = mock_chat, execute_skill = mock_execute_skill\<rparr>"

section \<open>Auxiliary notions for the proofs\<close>

text \<open>
  The history from the start of its round number \<open>k\<close> on (counting from 0), by recursion
  over the list: what the slice \<^verbatim>\<open>history[round_starts[k]:]\<close> is.
\<close>

fun skip_rounds :: "nat \<Rightarrow> history \<Rightarrow> history" where
  "skip_rounds k [] = []"
| "skip_rounds k (m # ms) =
     (if role m = User then (case k of 0 \<Rightarrow> m # ms | Suc j \<Rightarrow> skip_rounds j ms)
      else skip_rounds k ms)"

definition starts_user :: "history \<Rightarrow> bool" where
  "starts_user h \<longleftrightarrow> (case h of [] \<Rightarrow> False | m # ms \<Rightarrow> role m = User)"

text \<open>
  The rule of the specification for a tool message, by its words: scanning backward
  within the same round (stopping at the previous user message) there is an assistant
  message whose invocations include the tool message's invocation id. The argument is
  the reversed prefix, as for \<open>found_tc\<close>.
\<close>

fun requested_in_round :: "string option \<Rightarrow> LLMMessage list \<Rightarrow> bool" where
  "requested_in_round tid [] = False"
| "requested_in_round tid (m # ms) =
     (if role m = Assistant \<and> tid \<in> set (map (\<lambda>tc. Some (tc_id tc)) (tool_calls m)) then True
      else if role m = User then False
      else requested_in_round tid ms)"

text \<open>
  The backward scan shared by \<open>found_tc\<close> and \<open>requested_in_round\<close>: the nearest
  assistant message that satisfies \<open>P\<close>, looked for up to the previous user message.
\<close>

fun scan_back :: "(LLMMessage \<Rightarrow> bool) \<Rightarrow> LLMMessage list \<Rightarrow> bool" where
  "scan_back P [] = False"
| "scan_back P (m # ms) =
     (if role m = Assistant \<and> P m then True
      else if role m = User then False
      else scan_back P ms)"

text \<open>
  Every tool message of a history passes the scan, for a condition \<open>Q t a\<close> on the tool
  message \<open>t\<close> and the assistant message \<open>a\<close>: \<open>has_calls\<close> is the validator's
  condition and \<open>requests\<close> the one of the specification.
\<close>

definition tools_ok :: "(LLMMessage \<Rightarrow> LLMMessage \<Rightarrow> bool) \<Rightarrow> history \<Rightarrow> bool" where
  "tools_ok Q h \<longleftrightarrow>
     (\<forall>i<length h. role (h ! i) = Tool \<longrightarrow> scan_back (Q (h ! i)) (rev (take i h)))"

definition has_calls :: "LLMMessage \<Rightarrow> LLMMessage \<Rightarrow> bool" where
  "has_calls t a \<longleftrightarrow> tool_calls a \<noteq> []"

definition requests :: "LLMMessage \<Rightarrow> LLMMessage \<Rightarrow> bool" where
  "requests t a \<longleftrightarrow> tool_call_id t \<in> set (map (\<lambda>tc. Some (tc_id tc)) (tool_calls a))"

text \<open>
  What the tool loop adds to the transcript: zero or more groups of an assistant message
  with invocations followed by one tool message per invocation, in the order of the
  invocations.
\<close>

inductive tool_rounds :: "LLMMessage list \<Rightarrow> bool" where
  no_round: "tool_rounds []"
| one_more: "role a = Assistant \<Longrightarrow> tool_calls a \<noteq> [] \<Longrightarrow>
     map tool_call_id ts = map (\<lambda>tc. Some (tc_id tc)) (tool_calls a) \<Longrightarrow>
     (\<forall>t\<in>set ts. role t = Tool) \<Longrightarrow> tool_rounds rest \<Longrightarrow>
     tool_rounds (a # ts @ rest)"

text \<open>
  The history that a completed turn commits before it trims: the history before the
  call, the user message, the messages \<open>body\<close> of the tool loop, and the reply as a plain
  assistant message when \<^verbatim>\<open>full_response.strip()\<close> is not empty.
\<close>

definition committed :: "history \<Rightarrow> pystr \<Rightarrow> LLMMessage list \<Rightarrow> pystr \<Rightarrow> history" where
  "committed h task body reply =
     h @ user_message task # body
       @ (if py_strip reply \<noteq> [] then [assistant_message reply []] else [])"

text \<open>
  The invariant of the data model: every tool message of the history has, in its round
  and before it, an assistant message that requested its invocation id.
\<close>

definition tool_chain_intact :: "history \<Rightarrow> bool" where
  "tool_chain_intact h \<longleftrightarrow>
     (\<forall>i<length h. role (h ! i) = Tool \<longrightarrow>
        requested_in_round (tool_call_id (h ! i)) (rev (take i h)))"

text \<open>What the validator accepts, in the terms of the proofs.\<close>

definition valid_history :: "history \<Rightarrow> bool" where
  "valid_history h \<longleftrightarrow> (h = [] \<or> starts_user h) \<and> tools_ok has_calls h"

section \<open>Three sessions of the tests' provider\<close>

text \<open>An oversized tool result, 1501 characters, and a long reply, 5000 characters.\<close>

definition long_result :: pystr where
  "long_result = replicate 1501 65"

definition long_reply :: pystr where
  "long_reply = replicate 5000 66"

definition search_call :: tool_call where
  "search_call = \<lparr>tc_id = ''call_1'', tc_name = ''web-search'', tc_arguments = []\<rparr>"

text \<open>
  One turn with one tool round: the first completion asks for a search, the second asks
  for nothing and says \<open>A\<close>, the streamed reply is \<open>ok\<close>; the search returns the
  oversized result.
\<close>

definition search_world :: mock_world where
  "search_world =
     \<lparr>responses =
        [\<lparr>resp_content = [115], resp_tool_calls = [search_call]\<rparr>,
         \<lparr>resp_content = [65], resp_tool_calls = []\<rparr>,
         \<lparr>resp_content = [111, 107], resp_tool_calls = []\<rparr>],
      call_idx = 0,
      results = [(''web-search'',
         \<lparr>success = True, result = long_result, summary = [], error = None\<rparr>)],
      definitions = [''web-search'']\<rparr>"

text \<open>The same turn with no skill registered: the search fails.\<close>

definition failing_skill_world :: mock_world where
  "failing_skill_world = search_world\<lparr>results := []\<rparr>"

text \<open>A turn whose completions carry no invocations and no text.\<close>

definition silent_world :: mock_world where
  "silent_world =
     \<lparr>responses =
        [\<lparr>resp_content = [], resp_tool_calls = []\<rparr>,
         \<lparr>resp_content = [], resp_tool_calls = []\<rparr>],
      call_idx = 0, results = [], definitions = [''web-search'']\<rparr>"

text \<open>Six completions of 5000 characters each, for six turns of the end-to-end engine.\<close>

definition verbose_world :: mock_world where
  "verbose_world =
     \<lparr>responses = replicate 6 \<lparr>resp_content = long_reply, resp_tool_calls = []\<rparr>,
      call_idx = 0, results = [], definitions = []\<rparr>"

text \<open>A provider whose completion interface is down: every \<^verbatim>\<open>chat_complete\<close> raises.\<close>

definition down_env :: "(mock_world, string) env" where
  "down_env = mock_env\<lparr>chat_complete := (\<lambda>messages tools w. (Inl (ProviderError ''down''), w))\<rparr>"

text \<open>The history after the turn with the search.\<close>

definition search_history :: history where
  "search_history =
     [user_message [104, 105], assistant_message [115] [search_call],
      tool_message (take 1500 long_result @ TRUNCATION_MARKER) ''call_1'',
      assistant_message [111, 107] []]"

section \<open>The trimmer: rounds and the two stages\<close>
lemma round_starts_Cons:
  "round_starts (m # ms) = (if role m = User then [0] else []) @ map Suc (round_starts ms)"
proof -
  have "[0..<length (m # ms)] = 0 # map Suc [0..<length ms]"
    by (simp add: upt_conv_Cons map_Suc_upt del: upt_Suc)
  then show ?thesis
    by (simp add: round_starts_def filter_map comp_def del: upt_Suc)
qed

lemma round_starts_Nil: "round_starts [] = []"
  by (simp add: round_starts_def)

lemma length_round_starts: "length (round_starts h) = count_rounds h"
  by (induction h) (simp_all add: round_starts_Nil round_starts_Cons count_rounds_def)

lemma drop_round_start:
  "k < count_rounds h \<Longrightarrow> drop (round_starts h ! k) h = skip_rounds k h"
proof (induction h arbitrary: k)
  case Nil
  then show ?case by (simp add: count_rounds_def)
next
  case (Cons m ms)
  show ?case
  proof (cases "role m = User")
    case True
    show ?thesis
    proof (cases k)
      case 0
      with True show ?thesis by (simp add: round_starts_Cons)
    next
      case (Suc j)
      with Cons.prems True have "j < count_rounds ms" by (simp add: count_rounds_def)
      with Cons.IH [of j] True Suc show ?thesis
        by (simp add: round_starts_Cons length_round_starts)
    qed
  next
    case False
    with Cons.prems have "k < count_rounds ms" by (simp add: count_rounds_def)
    with Cons.IH [of k] False show ?thesis
      by (simp add: round_starts_Cons length_round_starts)
  qed
qed

lemma count_skip_rounds:
  "k < count_rounds h \<Longrightarrow> count_rounds (skip_rounds k h) = count_rounds h - k"
  by (induction h arbitrary: k) (auto simp: count_rounds_def split: nat.splits)

lemma starts_user_skip: "k < count_rounds h \<Longrightarrow> starts_user (skip_rounds k h)"
  by (induction h arbitrary: k) (auto simp: count_rounds_def starts_user_def split: nat.splits)

lemma skip_rounds_0_id: "starts_user h \<Longrightarrow> skip_rounds 0 h = h"
  by (cases h) (auto simp: starts_user_def)

lemma skip_rounds_suffix: "\<exists>pre. h = pre @ skip_rounds k h"
proof (induction h arbitrary: k)
  case Nil
  then show ?case by simp
next
  case (Cons m ms)
  show ?case
  proof (cases "role m = User \<and> k = 0")
    case True
    then show ?thesis by simp
  next
    case False
    then have "\<exists>j. skip_rounds k (m # ms) = skip_rounds j ms"
      by (cases k) auto
    then obtain j where "skip_rounds k (m # ms) = skip_rounds j ms" ..
    moreover obtain pre where "ms = pre @ skip_rounds j ms"
      using Cons.IH by blast
    ultimately have "m # ms = (m # pre) @ skip_rounds k (m # ms)" by simp
    then show ?thesis by blast
  qed
qed

lemma skip_skip:
  "k < count_rounds h \<Longrightarrow> skip_rounds j (skip_rounds k h) = skip_rounds (j + k) h"
  by (induction h arbitrary: k) (auto simp: count_rounds_def split: nat.splits)

lemma total_chars_append: "total_chars (xs @ ys) = total_chars xs + total_chars ys"
  by (simp add: total_chars_def)

lemma total_chars_take_drop: "total_chars h - total_chars (take n h) = total_chars (drop n h)"
  using total_chars_append [of "take n h" "drop n h"] by simp

lemma budget_loop_unfold:
  "budget_loop B t h =
     (if t > B \<and> count_rounds h > 2
      then budget_loop B (t - total_chars (take (round_starts h ! 1) h)) (skip_rounds 1 h)
      else h)"
  by (subst budget_loop.simps) (simp add: length_round_starts drop_round_start)

lemma budget_loop_stop: "\<not> (t > B \<and> count_rounds h > 2) \<Longrightarrow> budget_loop B t h = h"
  by (subst budget_loop_unfold) (rule if_not_P)

lemma budget_loop_step:
  "t > B \<Longrightarrow> count_rounds h > 2 \<Longrightarrow>
   budget_loop B t h = budget_loop B (t - total_chars (take (round_starts h ! 1) h)) (skip_rounds 1 h)"
  by (subst budget_loop_unfold) simp

lemma budget_loop_shape:
  "budget_loop B t h = h \<or> (\<exists>j. j + 2 \<le> count_rounds h \<and> budget_loop B t h = skip_rounds j h)"
proof (induction B t h rule: budget_loop.induct)
  case (1 B t h)
  show ?case
  proof (cases "t > B \<and> count_rounds h > 2")
    case False
    then have "budget_loop B t h = h" by (rule budget_loop_stop)
    then show ?thesis by simp
  next
    case True
    let ?t = "t - total_chars (take (round_starts h ! 1) h)"
    have eq: "budget_loop B t h = budget_loop B ?t (skip_rounds 1 h)"
      using True by (simp add: budget_loop_step)
    have cnt: "count_rounds (skip_rounds 1 h) = count_rounds h - 1"
      using True by (simp add: count_skip_rounds)
    have "budget_loop B ?t (skip_rounds 1 h) = skip_rounds 1 h \<or>
          (\<exists>j. j + 2 \<le> count_rounds (skip_rounds 1 h) \<and>
             budget_loop B ?t (skip_rounds 1 h) = skip_rounds j (skip_rounds 1 h))"
      using "1.IH" True by (simp add: length_round_starts drop_round_start)
    then show ?thesis
    proof
      assume "budget_loop B ?t (skip_rounds 1 h) = skip_rounds 1 h"
      with eq True have "1 + 2 \<le> count_rounds h \<and> budget_loop B t h = skip_rounds 1 h"
        by simp
      then show ?thesis by blast
    next
      assume "\<exists>j. j + 2 \<le> count_rounds (skip_rounds 1 h) \<and>
             budget_loop B ?t (skip_rounds 1 h) = skip_rounds j (skip_rounds 1 h)"
      then obtain j where j: "j + 2 \<le> count_rounds h - 1"
        and r: "budget_loop B ?t (skip_rounds 1 h) = skip_rounds j (skip_rounds 1 h)"
        using cnt by auto
      have "skip_rounds j (skip_rounds 1 h) = skip_rounds (j + 1) h"
        using True by (intro skip_skip) simp
      with eq r j have "(j + 1) + 2 \<le> count_rounds h \<and> budget_loop B t h = skip_rounds (j + 1) h"
        by simp
      then show ?thesis by blast
    qed
  qed
qed

lemma budget_loop_floor:
  "2 \<le> count_rounds h \<Longrightarrow> 2 \<le> count_rounds (budget_loop B t h)"
  using budget_loop_shape [of B t h] by (auto simp: count_skip_rounds)

lemma budget_loop_count_le: "count_rounds (budget_loop B t h) \<le> count_rounds h"
  using budget_loop_shape [of B t h] by (auto simp: count_skip_rounds)

lemma budget_loop_small: "count_rounds h \<le> 2 \<Longrightarrow> budget_loop B t h = h"
  by (rule budget_loop_stop) simp

lemma budget_loop_starts_user: "starts_user h \<Longrightarrow> starts_user (budget_loop B t h)"
  using budget_loop_shape [of B t h] by (auto simp: starts_user_skip)

lemma budget_loop_suffix: "\<exists>pre. h = pre @ budget_loop B t h"
  using budget_loop_shape [of B t h] skip_rounds_suffix by (metis append_Nil)

lemma budget_loop_done:
  "t = total_chars h \<Longrightarrow>
   total_chars (budget_loop B t h) \<le> B \<or> count_rounds (budget_loop B t h) \<le> 2"
proof (induction B t h rule: budget_loop.induct)
  case (1 B t h)
  show ?case
  proof (cases "t > B \<and> count_rounds h > 2")
    case False
    then have "budget_loop B t h = h" by (rule budget_loop_stop)
    with False "1.prems" show ?thesis by auto
  next
    case True
    let ?n = "round_starts h ! 1"
    have eq: "budget_loop B t h = budget_loop B (t - total_chars (take ?n h)) (skip_rounds 1 h)"
      using True by (simp add: budget_loop_step)
    have d: "drop ?n h = skip_rounds 1 h"
      using True by (intro drop_round_start) simp
    have "t - total_chars (take ?n h) = total_chars (skip_rounds 1 h)"
      using "1.prems" total_chars_take_drop [of h ?n] d by simp
    with "1.IH" True d show ?thesis
      unfolding eq by (simp add: length_round_starts)
  qed
qed

lemma budget_trim_idem: "budget_trim B (budget_trim B h) = budget_trim B h"
proof -
  have "total_chars (budget_trim B h) \<le> B \<or> count_rounds (budget_trim B h) \<le> 2"
    unfolding budget_trim_def by (rule budget_loop_done) simp
  then have "budget_loop B (total_chars (budget_trim B h)) (budget_trim B h) = budget_trim B h"
    by (intro budget_loop_stop) auto
  then show ?thesis
    by (subst (1) budget_trim_def)
qed

lemma py_index_neg:
  "0 < R \<Longrightarrow> R < int (length xs) \<Longrightarrow> py_index xs (- R) = Inr (xs ! (length xs - nat R))"
  by (simp add: py_index_def nat_diff_distrib')

lemma py_index_0: "xs \<noteq> [] \<Longrightarrow> py_index xs 0 = Inr (xs ! 0)"
  by (simp add: py_index_def)

lemma round_trim_nonneg:
  "0 \<le> R \<Longrightarrow> round_trim R h =
     Inr (if int (count_rounds h) > R
          then skip_rounds (if R = 0 then 0 else count_rounds h - nat R) h else h)"
proof (cases "int (count_rounds h) > R")
  case False
  then show ?thesis by (simp add: round_trim_def length_round_starts)
next
  case True
  assume R: "0 \<le> R"
  show ?thesis
  proof (cases "R = 0")
    case True
    with \<open>int (count_rounds h) > R\<close> have "0 < count_rounds h" by simp
    then have "round_starts h \<noteq> []" "drop (round_starts h ! 0) h = skip_rounds 0 h"
      using length_round_starts [of h] by (auto simp: drop_round_start)
    with True \<open>0 < count_rounds h\<close> show ?thesis
      by (simp add: round_trim_def length_round_starts py_index_0)
  next
    case False
    with R have pos: "0 < R" by simp
    have "count_rounds h - nat R < count_rounds h"
      using pos True by simp
    then have "drop (round_starts h ! (count_rounds h - nat R)) h
               = skip_rounds (count_rounds h - nat R) h"
      by (rule drop_round_start)
    with pos True False show ?thesis
      by (simp add: round_trim_def length_round_starts py_index_neg)
  qed
qed

lemma round_trim_count:
  assumes "0 < R" "round_trim R h = Inr h1"
  shows "int (count_rounds h1) \<le> R"
proof (cases "int (count_rounds h) > R")
  case True
  then have "count_rounds h - nat R < count_rounds h" using assms(1) by simp
  then have "count_rounds (skip_rounds (count_rounds h - nat R) h) = count_rounds h - (count_rounds h - nat R)"
    by (rule count_skip_rounds)
  with assms True show ?thesis
    by (simp add: round_trim_nonneg)
next
  case False
  with assms show ?thesis by (simp add: round_trim_nonneg)
qed

lemma trim_total: "0 \<le> R \<Longrightarrow> \<exists>h'. trim R B h = Inr h'"
  by (simp add: trim_def round_trim_nonneg)

lemma trim_idem:
  assumes R: "0 \<le> R" and t: "trim R B h = Inr h'"
  shows "trim R B h' = Inr h'"
proof (cases "h = []")
  case True
  with t show ?thesis by (auto simp: trim_def)
next
  case False
  from R obtain h1 where h1: "round_trim R h = Inr h1"
    by (simp add: round_trim_nonneg)
  with t False have h': "h' = budget_trim B h1"
    by (simp add: trim_def)
  have stageA: "round_trim R h' = Inr h'"
  proof (cases "R = 0")
    case False
    with R h1 have "int (count_rounds h1) \<le> R"
      by (intro round_trim_count [of R h]) auto
    moreover have "count_rounds h' \<le> count_rounds h1"
      unfolding h' budget_trim_def by (rule budget_loop_count_le)
    ultimately show ?thesis using R by (simp add: round_trim_nonneg)
  next
    case True
    show ?thesis
    proof (cases "count_rounds h = 0")
      case z: True
      with True h1 have "h1 = h" by (simp add: round_trim_nonneg)
      with z have "h' = h" unfolding h' budget_trim_def by (simp add: budget_loop_small)
      with z True show ?thesis by (simp add: round_trim_nonneg)
    next
      case nz: False
      with True h1 have "h1 = skip_rounds 0 h" by (simp add: round_trim_nonneg)
      with nz have "starts_user h1" by (simp add: starts_user_skip)
      then have "starts_user h'" unfolding h' budget_trim_def by (rule budget_loop_starts_user)
      then show ?thesis using True by (simp add: round_trim_nonneg skip_rounds_0_id)
    qed
  qed
  have "budget_trim B h' = h'" unfolding h' by (rule budget_trim_idem)
  with stageA show ?thesis by (simp add: trim_def)
qed

lemma round_trim_keeps_two:
  assumes "2 \<le> R" "2 \<le> count_rounds h" "round_trim R h = Inr h1"
  shows "2 \<le> count_rounds h1"
proof (cases "int (count_rounds h) > R")
  case True
  then have "count_rounds h - nat R < count_rounds h" using assms(1) by simp
  then have "count_rounds (skip_rounds (count_rounds h - nat R) h) = count_rounds h - (count_rounds h - nat R)"
    by (rule count_skip_rounds)
  with assms True show ?thesis
    by (simp add: round_trim_nonneg)
next
  case False
  with assms show ?thesis by (simp add: round_trim_nonneg)
qed

section \<open>The validator: what it reports\<close>

lemma found_tc_iff:
  "found_tc xs \<longleftrightarrow>
     (\<exists>j<length xs. role (xs ! j) = Assistant \<and> tool_calls (xs ! j) \<noteq> [] \<and>
        (\<forall>k<j. role (xs ! k) \<noteq> User))"
proof (induction xs)
  case Nil
  then show ?case by simp
next
  case (Cons m ms)
  show ?case
  proof (cases "role m = Assistant \<and> tool_calls m \<noteq> []")
    case True
    then have "0 < length (m # ms) \<and> role ((m # ms) ! 0) = Assistant \<and> tool_calls ((m # ms) ! 0) \<noteq> [] \<and>
        (\<forall>k<0. role ((m # ms) ! k) \<noteq> User)" by simp
    then have "\<exists>j<length (m # ms). role ((m # ms) ! j) = Assistant \<and> tool_calls ((m # ms) ! j) \<noteq> [] \<and>
        (\<forall>k<j. role ((m # ms) ! k) \<noteq> User)" by blast
    with True show ?thesis by simp
  next
    case False
    show ?thesis
    proof (cases "role m = User")
      case True
      have "\<not> (\<exists>j<length (m # ms). role ((m # ms) ! j) = Assistant \<and> tool_calls ((m # ms) ! j) \<noteq> [] \<and>
        (\<forall>k<j. role ((m # ms) ! k) \<noteq> User))"
      proof
        assume "\<exists>j<length (m # ms). role ((m # ms) ! j) = Assistant \<and> tool_calls ((m # ms) ! j) \<noteq> [] \<and>
        (\<forall>k<j. role ((m # ms) ! k) \<noteq> User)"
        then obtain j where j: "role ((m # ms) ! j) = Assistant" "\<forall>k<j. role ((m # ms) ! k) \<noteq> User"
          by blast
        from j(1) True have "j \<noteq> 0" by (cases j) auto
        with j(2) have "role ((m # ms) ! 0) \<noteq> User" by blast
        with True show False by simp
      qed
      moreover have "\<not> found_tc (m # ms)"
        using False True by auto
      ultimately show ?thesis by simp
    next
      case nu: False
      have "(\<exists>j<length (m # ms). role ((m # ms) ! j) = Assistant \<and> tool_calls ((m # ms) ! j) \<noteq> [] \<and>
              (\<forall>k<j. role ((m # ms) ! k) \<noteq> User))
            \<longleftrightarrow> (\<exists>j<length ms. role (ms ! j) = Assistant \<and> tool_calls (ms ! j) \<noteq> [] \<and>
              (\<forall>k<j. role (ms ! k) \<noteq> User))" (is "?L \<longleftrightarrow> ?R")
      proof
        assume ?L
        then obtain j where j: "j < length (m # ms)" "role ((m # ms) ! j) = Assistant"
          "tool_calls ((m # ms) ! j) \<noteq> []" "\<forall>k<j. role ((m # ms) ! k) \<noteq> User"
          by blast
        from j(2,3) False obtain i where i: "j = Suc i" by (cases j) auto
        from j(4) i have "\<forall>k<i. role (ms ! k) \<noteq> User" by auto
        with j i show ?R by auto
      next
        assume ?R
        then obtain j where j: "j < length ms" "role (ms ! j) = Assistant"
          "tool_calls (ms ! j) \<noteq> []" "\<forall>k<j. role (ms ! k) \<noteq> User"
          by blast
        have "\<forall>k<Suc j. role ((m # ms) ! k) \<noteq> User"
          using j(4) nu by (auto simp: less_Suc_eq_0_disj)
        with j have "Suc j < length (m # ms) \<and> role ((m # ms) ! Suc j) = Assistant \<and>
          tool_calls ((m # ms) ! Suc j) \<noteq> [] \<and> (\<forall>k<Suc j. role ((m # ms) ! k) \<noteq> User)"
          by simp
        then show ?L by blast
      qed
      moreover have "found_tc (m # ms) = found_tc ms"
        using False nu by auto
      ultimately show ?thesis using Cons.IH by simp
    qed
  qed
qed

lemma found_tc_prefix_iff:
  assumes "i \<le> length h"
  shows "found_tc (rev (take i h)) \<longleftrightarrow>
     (\<exists>j<i. role (h ! j) = Assistant \<and> tool_calls (h ! j) \<noteq> [] \<and>
        (\<forall>k. j < k \<and> k < i \<longrightarrow> role (h ! k) \<noteq> User))" (is "?L \<longleftrightarrow> ?R")
proof -
  let ?xs = "rev (take i h)"
  have len: "length ?xs = i" using assms by simp
  have nth: "?xs ! n = h ! (i - Suc n)" if "n < i" for n
    using that assms by (simp add: rev_nth)
  show ?thesis
  proof
    assume ?L
    then obtain n where n: "n < i" "role (?xs ! n) = Assistant" "tool_calls (?xs ! n) \<noteq> []"
      "\<forall>k<n. role (?xs ! k) \<noteq> User"
      unfolding found_tc_iff len by blast
    have "\<forall>k. i - Suc n < k \<and> k < i \<longrightarrow> role (h ! k) \<noteq> User"
    proof (intro allI impI)
      fix k assume k: "i - Suc n < k \<and> k < i"
      then have "i - Suc k < n" "i - Suc k < i" by auto
      with n(4) have "role (?xs ! (i - Suc k)) \<noteq> User" by blast
      moreover have "?xs ! (i - Suc k) = h ! (i - Suc (i - Suc k))"
        using \<open>i - Suc k < i\<close> by (rule nth)
      moreover have "i - Suc (i - Suc k) = k" using k by auto
      ultimately show "role (h ! k) \<noteq> User" by simp
    qed
    moreover have "i - Suc n < i" using n(1) by simp
    ultimately show ?R using n(2,3) nth [OF n(1)] by auto
  next
    assume ?R
    then obtain j where j: "j < i" "role (h ! j) = Assistant" "tool_calls (h ! j) \<noteq> []"
      "\<forall>k. j < k \<and> k < i \<longrightarrow> role (h ! k) \<noteq> User"
      by blast
    let ?n = "i - Suc j"
    have n: "?n < i" using j(1) by simp
    have e: "?xs ! ?n = h ! j" using nth [OF n] j(1) by simp
    have "\<forall>k<?n. role (?xs ! k) \<noteq> User"
    proof (intro allI impI)
      fix k assume k: "k < ?n"
      then have "k < i" by simp
      then have "?xs ! k = h ! (i - Suc k)" by (rule nth)
      moreover have "j < i - Suc k \<and> i - Suc k < i" using k by auto
      ultimately show "role (?xs ! k) \<noteq> User" using j(4) by simp
    qed
    with n e j(2,3) have "?n < length ?xs \<and> role (?xs ! ?n) = Assistant \<and> tool_calls (?xs ! ?n) \<noteq> [] \<and>
        (\<forall>k<?n. role (?xs ! k) \<noteq> User)" using len by simp
    then show ?L unfolding found_tc_iff by blast
  qed
qed

lemma tool_violation_iff:
  "ToolWithoutCall i \<in> set (validate_message_sequence h) \<longleftrightarrow>
     i < length h \<and> role (h ! i) = Tool \<and> \<not> found_tc (rev (take i h))"
  by (cases "h = []") (auto simp: validate_message_sequence_def split: if_splits)

lemma first_violation_iff:
  "FirstNotUser r \<in> set (validate_message_sequence h) \<longleftrightarrow>
     h \<noteq> [] \<and> role (h ! 0) \<noteq> User \<and> r = role (h ! 0)"
  by (cases "h = []") (auto simp: validate_message_sequence_def split: if_splits)

lemma validate_empty_iff:
  "validate_message_sequence h = [] \<longleftrightarrow>
     (h = [] \<or> role (h ! 0) = User) \<and>
     (\<forall>i<length h. role (h ! i) = Tool \<longrightarrow> found_tc (rev (take i h)))"
proof -
  have "validate_message_sequence h = [] \<longleftrightarrow> (\<forall>v. v \<notin> set (validate_message_sequence h))"
    by (cases "validate_message_sequence h") auto
  also have "\<dots> \<longleftrightarrow> (\<forall>r. FirstNotUser r \<notin> set (validate_message_sequence h)) \<and>
                       (\<forall>i. ToolWithoutCall i \<notin> set (validate_message_sequence h))"
    by (metis violation.exhaust)
  also have "\<dots> \<longleftrightarrow> (h = [] \<or> role (h ! 0) = User) \<and>
     (\<forall>i<length h. role (h ! i) = Tool \<longrightarrow> found_tc (rev (take i h)))"
    unfolding tool_violation_iff first_violation_iff by auto
  finally show ?thesis .
qed

section \<open>Tool messages and the assistant messages that requested them\<close>

lemma found_tc_scan: "found_tc xs = scan_back (\<lambda>a. tool_calls a \<noteq> []) xs"
  by (induction xs) auto

lemma requested_scan:
  "requested_in_round tid xs =
     scan_back (\<lambda>a. tid \<in> set (map (\<lambda>tc. Some (tc_id tc)) (tool_calls a))) xs"
  by (induction xs) auto

lemma scan_back_append_user:
  "\<exists>m\<in>set as. role m = User \<Longrightarrow> scan_back P (as @ bs) = scan_back P as"
  by (induction as) auto

lemma scan_back_tools:
  "\<forall>t\<in>set ts. role t = Tool \<Longrightarrow> scan_back P (ts @ rest) = scan_back P rest"
  by (induction ts) auto

lemma tools_ok_Nil: "tools_ok Q []"
  by (simp add: tools_ok_def)

lemma tools_ok_snoc:
  "tools_ok Q (xs @ [m]) \<longleftrightarrow> tools_ok Q xs \<and> (role m = Tool \<longrightarrow> scan_back (Q m) (rev xs))"
  by (auto simp add: tools_ok_def All_less_Suc nth_append)

lemma tools_ok_append_group:
  assumes "tools_ok Q xs" "role a = Assistant" "\<forall>t\<in>set ts. role t = Tool \<and> Q t a"
  shows "tools_ok Q (xs @ a # ts)"
  using assms(3)
proof (induction ts rule: rev_induct)
  case Nil
  have "tools_ok Q (xs @ [a])"
    using assms(1,2) by (simp add: tools_ok_snoc)
  then show ?case by simp
next
  case (snoc t ts)
  then have ok: "tools_ok Q (xs @ a # ts)" and t: "role t = Tool" "Q t a"
    and ts: "\<forall>t\<in>set (rev ts). role t = Tool" by auto
  have "scan_back (Q t) (rev ts @ a # rev xs)"
    using scan_back_tools [OF ts, of "Q t" "a # rev xs"] assms(2) t(2) by simp
  then have "tools_ok Q ((xs @ a # ts) @ [t])"
    unfolding tools_ok_snoc using ok by simp
  then show ?case by simp
qed

lemma tools_ok_append_rounds:
  assumes "tool_rounds body" "tools_ok Q pre"
    and "\<And>a ts. map tool_call_id ts = map (\<lambda>tc. Some (tc_id tc)) (tool_calls a) \<Longrightarrow>
           tool_calls a \<noteq> [] \<Longrightarrow> \<forall>t\<in>set ts. Q t a"
  shows "tools_ok Q (pre @ body)"
  using assms(1,2)
proof (induction body arbitrary: pre rule: tool_rounds.induct)
  case no_round
  then show ?case by simp
next
  case (one_more a ts rest)
  have "\<forall>t\<in>set ts. Q t a"
    using one_more.hyps(2,3) by (intro assms(3)) auto
  with one_more.hyps(4) have "\<forall>t\<in>set ts. role t = Tool \<and> Q t a" by blast
  with one_more.prems one_more.hyps(1) have "tools_ok Q (pre @ a # ts)"
    by (intro tools_ok_append_group) auto
  then have "tools_ok Q ((pre @ a # ts) @ rest)"
    by (rule one_more.IH)
  then show ?case by simp
qed

lemma has_calls_group:
  "map tool_call_id ts = map (\<lambda>tc. Some (tc_id tc)) (tool_calls a) \<Longrightarrow>
   tool_calls a \<noteq> [] \<Longrightarrow> \<forall>t\<in>set ts. has_calls t a"
  by (simp add: has_calls_def)

lemma requests_group:
  assumes "map tool_call_id ts = map (\<lambda>tc. Some (tc_id tc)) (tool_calls a)"
  shows "\<forall>t\<in>set ts. requests t a"
proof
  fix t assume "t \<in> set ts"
  then have "tool_call_id t \<in> set (map tool_call_id ts)" by simp
  with assms show "requests t a" by (simp add: requests_def)
qed

lemma tools_ok_append_round:
  assumes "tools_ok Q xs" "tools_ok Q ys" "starts_user ys"
  shows "tools_ok Q (xs @ ys)"
  unfolding tools_ok_def
proof (intro allI impI)
  fix i assume i: "i < length (xs @ ys)" and t: "role ((xs @ ys) ! i) = Tool"
  show "scan_back (Q ((xs @ ys) ! i)) (rev (take i (xs @ ys)))"
  proof (cases "i < length xs")
    case True
    with assms(1) t show ?thesis by (simp add: tools_ok_def nth_append)
  next
    case False
    define j where "j = i - length xs"
    have j: "j < length ys" "i = length xs + j" using False i by (auto simp: j_def)
    from assms(3) obtain u us where ys: "ys = u # us" "role u = User"
      by (cases ys) (auto simp: starts_user_def)
    from t j have tj: "role (ys ! j) = Tool" by (simp add: nth_append)
    with ys have "j \<noteq> 0" by (cases j) auto
    then have "u \<in> set (take j ys)" using ys by (cases j) auto
    with ys(2) have "\<exists>m\<in>set (rev (take j ys)). role m = User" by auto
    then have "scan_back (Q (ys ! j)) (rev (take j ys) @ rev xs) = scan_back (Q (ys ! j)) (rev (take j ys))"
      by (rule scan_back_append_user)
    moreover have "scan_back (Q (ys ! j)) (rev (take j ys))"
      using assms(2) j(1) tj by (simp add: tools_ok_def)
    ultimately show ?thesis using j by (simp add: nth_append)
  qed
qed

lemma tools_ok_suffix:
  assumes "tools_ok Q (pre @ suf)" "suf = [] \<or> starts_user suf"
  shows "tools_ok Q suf"
  unfolding tools_ok_def
proof (intro allI impI)
  fix j assume j: "j < length suf" and tj: "role (suf ! j) = Tool"
  then have "suf \<noteq> []" by auto
  with assms(2) obtain u us where ys: "suf = u # us" "role u = User"
    by (cases suf) (auto simp: starts_user_def)
  with tj have "j \<noteq> 0" by (cases j) auto
  then have "u \<in> set (take j suf)" using ys by (cases j) auto
  with ys(2) have "\<exists>m\<in>set (rev (take j suf)). role m = User" by auto
  then have e: "scan_back (Q (suf ! j)) (rev (take j suf) @ rev pre) = scan_back (Q (suf ! j)) (rev (take j suf))"
    by (rule scan_back_append_user)
  have "length pre + j < length (pre @ suf)" "role ((pre @ suf) ! (length pre + j)) = Tool"
    using j tj by (simp_all add: nth_append)
  with assms(1) have "scan_back (Q ((pre @ suf) ! (length pre + j))) (rev (take (length pre + j) (pre @ suf)))"
    unfolding tools_ok_def by blast
  with e show "scan_back (Q (suf ! j)) (rev (take j suf))" by (simp add: nth_append)
qed

lemma tools_ok_skip_rounds:
  assumes "tools_ok Q h" "k < count_rounds h"
  shows "tools_ok Q (skip_rounds k h)"
proof -
  obtain pre where "h = pre @ skip_rounds k h" using skip_rounds_suffix by blast
  with assms(1) have a: "tools_ok Q (pre @ skip_rounds k h)" by simp
  have "starts_user (skip_rounds k h)" using assms(2) by (rule starts_user_skip)
  then have b: "skip_rounds k h = [] \<or> starts_user (skip_rounds k h)" by simp
  from a b show ?thesis by (rule tools_ok_suffix)
qed

lemma has_calls_eq: "has_calls t = (\<lambda>a. tool_calls a \<noteq> [])"
  by (simp add: has_calls_def fun_eq_iff)

lemma requests_eq:
  "requests t = (\<lambda>a. tool_call_id t \<in> set (map (\<lambda>tc. Some (tc_id tc)) (tool_calls a)))"
  by (simp add: requests_def fun_eq_iff)

lemma validate_empty_tools_ok:
  "validate_message_sequence h = [] \<longleftrightarrow> (h = [] \<or> starts_user h) \<and> tools_ok has_calls h"
proof -
  have "(h = [] \<or> role (h ! 0) = User) \<longleftrightarrow> (h = [] \<or> starts_user h)"
    by (cases h) (auto simp: starts_user_def)
  then show ?thesis
    by (simp add: validate_empty_iff tools_ok_def has_calls_eq found_tc_scan)
qed

lemma tools_ok_requests_iff:
  "tools_ok requests h \<longleftrightarrow>
     (\<forall>i<length h. role (h ! i) = Tool \<longrightarrow> requested_in_round (tool_call_id (h ! i)) (rev (take i h)))"
  by (simp add: tools_ok_def requests_eq requested_scan)

section \<open>The trimmer returns a suffix of whole rounds; what one turn commits\<close>

lemma py_index_Inr:
  assumes "py_index xs i = Inr x"
  shows "\<exists>k<length xs. x = xs ! k"
proof (cases "0 \<le> i \<and> i < int (length xs)")
  case True
  with assms have "nat i < length xs \<and> x = xs ! nat i" by (auto simp: py_index_def)
  then show ?thesis by blast
next
  case False
  with assms have "nat (int (length xs) + i) < length xs \<and> x = xs ! nat (int (length xs) + i)"
    by (auto simp: py_index_def split: if_splits)
  then show ?thesis by blast
qed

lemma round_trim_shape:
  assumes "round_trim R h = Inr h1"
  shows "h1 = h \<or> (\<exists>k<count_rounds h. h1 = skip_rounds k h)"
proof (cases "int (count_rounds h) > R")
  case False
  with assms show ?thesis by (simp add: round_trim_def length_round_starts)
next
  case True
  with assms obtain n where n: "py_index (round_starts h) (- R) = Inr n" "h1 = drop n h"
    by (auto simp: round_trim_def length_round_starts split: sum.splits)
  from n(1) obtain k where "k < count_rounds h" "n = round_starts h ! k"
    using py_index_Inr [of "round_starts h" "- R" n] by (auto simp: length_round_starts)
  with n(2) have "k < count_rounds h \<and> h1 = skip_rounds k h"
    by (simp add: drop_round_start)
  then show ?thesis by blast
qed

lemma budget_trim_shape:
  "budget_trim B h = h \<or> (\<exists>k<count_rounds h. budget_trim B h = skip_rounds k h)"
proof -
  from budget_loop_shape [of B "total_chars h" h]
  show ?thesis
  proof
    assume "budget_loop B (total_chars h) h = h"
    then show ?thesis by (simp add: budget_trim_def)
  next
    assume "\<exists>j. j + 2 \<le> count_rounds h \<and> budget_loop B (total_chars h) h = skip_rounds j h"
    then obtain j where "j + 2 \<le> count_rounds h" "budget_loop B (total_chars h) h = skip_rounds j h"
      by blast
    then have "j < count_rounds h \<and> budget_trim B h = skip_rounds j h"
      by (simp add: budget_trim_def)
    then show ?thesis by blast
  qed
qed

lemma two_stage_shape:
  assumes "round_trim R h = Inr h1"
  shows "budget_trim B h1 = h \<or> (\<exists>k<count_rounds h. budget_trim B h1 = skip_rounds k h)"
proof -
  from assms have "h1 = h \<or> (\<exists>k<count_rounds h. h1 = skip_rounds k h)"
    by (rule round_trim_shape)
  then show ?thesis
  proof
    assume "h1 = h"
    then show ?thesis using budget_trim_shape [of B h] by simp
  next
    assume "\<exists>k<count_rounds h. h1 = skip_rounds k h"
    then obtain k where k: "k < count_rounds h" "h1 = skip_rounds k h" by blast
    from budget_trim_shape [of B h1] show ?thesis
    proof
      assume "budget_trim B h1 = h1"
      with k show ?thesis by auto
    next
      assume "\<exists>j<count_rounds h1. budget_trim B h1 = skip_rounds j h1"
      then obtain j where j: "j < count_rounds h1" "budget_trim B h1 = skip_rounds j h1" by blast
      from j(1) k have "j + k < count_rounds h" by (simp add: count_skip_rounds)
      moreover have "skip_rounds j h1 = skip_rounds (j + k) h"
        unfolding k(2) using k(1) by (rule skip_skip)
      ultimately show ?thesis using j(2) by auto
    qed
  qed
qed

lemma trim_shape:
  assumes "trim R B h = Inr h'"
  shows "h' = h \<or> (\<exists>k<count_rounds h. h' = skip_rounds k h)"
proof (cases "h = []")
  case True
  with assms show ?thesis by (simp add: trim_def)
next
  case False
  with assms obtain h1 where "round_trim R h = Inr h1" "h' = budget_trim B h1"
    by (auto simp: trim_def split: sum.splits)
  then show ?thesis using two_stage_shape [of R h h1 B] by simp
qed

lemma trim_history_shape:
  assumes "trim_history R h = Inr h'"
  shows "h' = h \<or> (\<exists>k<count_rounds h. h' = skip_rounds k h)"
proof -
  from assms obtain h1 where "round_trim R h = Inr h1" "h' = budget_trim MAX_HISTORY_CHARS h1"
    by (auto simp: trim_history_def split: sum.splits)
  then show ?thesis using two_stage_shape [of R h h1 MAX_HISTORY_CHARS] by simp
qed

lemma trim6_total: "\<exists>h'. trim_conversation_history 6 h = Inr h'"
  unfolding trim_conversation_history_def by (rule trim_total) simp

lemma set_skip_rounds: "set (skip_rounds k h) \<subseteq> set h"
proof -
  obtain pre where "h = pre @ skip_rounds k h" using skip_rounds_suffix by blast
  then have "set h = set pre \<union> set (skip_rounds k h)" by (metis set_append)
  then show ?thesis by blast
qed

subsection \<open>The tool loop\<close>

lemma run_tools_shape:
  "\<exists>ts w'. run_tools env tcs msgs w = (msgs @ ts, w') \<and>
      map tool_call_id ts = map (\<lambda>tc. Some (tc_id tc)) tcs \<and>
      (\<forall>t\<in>set ts. role t = Tool)"
proof (induction tcs arbitrary: msgs w)
  case Nil
  then show ?case by simp
next
  case (Cons tc tcs)
  obtain r w1 where e: "execute_skill env (tc_name tc) w = (r, w1)"
    by (cases "execute_skill env (tc_name tc) w")
  let ?t = "tool_message (tool_content r) (tc_id tc)"
  from Cons.IH [of "msgs @ [?t]" w1] obtain ts w' where
    ts: "run_tools env tcs (msgs @ [?t]) w1 = ((msgs @ [?t]) @ ts, w')"
      "map tool_call_id ts = map (\<lambda>tc. Some (tc_id tc)) tcs" "\<forall>t\<in>set ts. role t = Tool"
    by blast
  have "run_tools env (tc # tcs) msgs w = (msgs @ (?t # ts), w') \<and>
      map tool_call_id (?t # ts) = map (\<lambda>tc. Some (tc_id tc)) (tc # tcs) \<and>
      (\<forall>t\<in>set (?t # ts). role t = Tool)"
    using e ts by (simp add: tool_message_def)
  then show ?case by blast
qed

lemma tool_loop_shape:
  "tool_loop env defs n msgs c w = (Inr (msgs', c'), w') \<Longrightarrow>
   \<exists>body. msgs' = msgs @ body \<and> tool_rounds body"
proof (induction n arbitrary: msgs c w)
  case 0
  then have "msgs' = msgs @ [] \<and> tool_rounds []" by (simp add: tool_rounds.no_round)
  then show ?case by blast
next
  case (Suc n)
  show ?case
  proof (cases "defs = []")
    case True
    with Suc.prems have "msgs' = msgs @ [] \<and> tool_rounds []" by (simp add: tool_rounds.no_round)
    then show ?thesis by blast
  next
    case False
    obtain res w1 where cc: "chat_complete env msgs (Some defs) w = (res, w1)"
      by (cases "chat_complete env msgs (Some defs) w")
    show ?thesis
    proof (cases res)
      case (Inl e)
      with Suc.prems False cc show ?thesis by simp
    next
      case (Inr resp)
      show ?thesis
      proof (cases "resp_tool_calls resp = []")
        case True
        with Suc.prems False cc Inr have "msgs' = msgs @ [] \<and> tool_rounds []"
          by (simp add: tool_rounds.no_round)
        then show ?thesis by blast
      next
        case nonempty: False
        let ?a = "assistant_message (resp_content resp) (resp_tool_calls resp)"
        obtain ts w2 where ts: "run_tools env (resp_tool_calls resp) (msgs @ [?a]) w1 = ((msgs @ [?a]) @ ts, w2)"
          "map tool_call_id ts = map (\<lambda>tc. Some (tc_id tc)) (resp_tool_calls resp)"
          "\<forall>t\<in>set ts. role t = Tool"
          using run_tools_shape [of env "resp_tool_calls resp" "msgs @ [?a]" w1] by blast
        from Suc.prems False cc Inr nonempty ts(1)
        have "tool_loop env defs n ((msgs @ [?a]) @ ts) (Some (resp_content resp)) w2 = (Inr (msgs', c'), w')"
          by simp
        from Suc.IH [OF this] obtain body where body: "msgs' = ((msgs @ [?a]) @ ts) @ body" "tool_rounds body"
          by blast
        have "tool_rounds (?a # ts @ body)"
          using nonempty ts(2,3) body(2)
          by (intro tool_rounds.one_more) (simp_all add: assistant_message_def)
        with body(1) have "msgs' = msgs @ (?a # ts @ body) \<and> tool_rounds (?a # ts @ body)" by simp
        then show ?thesis by blast
      qed
    qed
  qed
qed

lemma tool_rounds_roles:
  "tool_rounds body \<Longrightarrow> \<forall>m\<in>set body. role m = Tool \<or> (role m = Assistant \<and> tool_calls m \<noteq> [])"
  by (induction rule: tool_rounds.induct) auto

lemma truncate_role: "role (truncate_tool_result m) = role m"
  by (simp add: truncate_tool_result_def)

lemma truncate_id: "tool_call_id (truncate_tool_result m) = tool_call_id m"
  by (simp add: truncate_tool_result_def)

lemma truncate_other: "role m \<noteq> Tool \<Longrightarrow> truncate_tool_result m = m"
  by (simp add: truncate_tool_result_def)

lemma tool_rounds_truncate:
  "tool_rounds body \<Longrightarrow> tool_rounds (map truncate_tool_result body)"
proof (induction rule: tool_rounds.induct)
  case no_round
  then show ?case by (simp add: tool_rounds.no_round)
next
  case (one_more a ts rest)
  have a: "truncate_tool_result a = a" using one_more.hyps(1) by (simp add: truncate_other)
  have "map tool_call_id (map truncate_tool_result ts) = map tool_call_id ts"
    by (simp add: truncate_id comp_def)
  with one_more.hyps(3) have ids: "map tool_call_id (map truncate_tool_result ts) =
      map (\<lambda>tc. Some (tc_id tc)) (tool_calls a)" by simp
  have roles: "\<forall>t\<in>set (map truncate_tool_result ts). role t = Tool"
    using one_more.hyps(4) by (simp add: truncate_role)
  have "tool_rounds (a # map truncate_tool_result ts @ map truncate_tool_result rest)"
    using one_more.hyps(1,2) ids roles one_more.IH by (rule tool_rounds.one_more)
  with a show ?case by simp
qed

subsection \<open>One turn\<close>

lemma commit_task_Inl1:
  "tool_loop env (get_tool_definitions env w) max_tool_rounds
      ([system_message SYSTEM_PROMPT] @ h @ [user_message task]) None w = (Inl e, w1) \<Longrightarrow>
   commit_task env task (h, w) = (Inl e, h, w1)"
  by (simp add: commit_task_def)

lemma commit_task_Inl2:
  "tool_loop env (get_tool_definitions env w) max_tool_rounds
      ([system_message SYSTEM_PROMPT] @ h @ [user_message task]) None w = (Inr (msgs, c), w1) \<Longrightarrow>
   chat env msgs w1 = (Inl e, w2) \<Longrightarrow>
   commit_task env task (h, w) = (Inl e, h, w2)"
  by (simp add: commit_task_def)

lemma commit_task_Inr:
  "tool_loop env (get_tool_definitions env w) max_tool_rounds
      ([system_message SYSTEM_PROMPT] @ h @ [user_message task]) None w = (Inr (msgs, c), w1) \<Longrightarrow>
   chat env msgs w1 = (Inr chunks, w2) \<Longrightarrow>
   commit_task env task (h, w) =
     (Inr (concat chunks),
      h @ map truncate_tool_result (drop (1 + length h) msgs)
        @ (if py_strip (concat chunks) \<noteq> [] then [assistant_message (concat chunks) []] else []),
      w2)"
  by (simp add: commit_task_def)

lemma commit_task_shape:
  assumes "commit_task env task (h, w) = (Inr reply, h', w')"
  shows "\<exists>body. tool_rounds body \<and> h' = committed h task (map truncate_tool_result body) reply"
proof -
  let ?m0 = "[system_message SYSTEM_PROMPT] @ h @ [user_message task]"
  have "\<exists>res w1. tool_loop env (get_tool_definitions env w) max_tool_rounds ?m0 None w = (res, w1)"
    by (rule surj_pair)
  then obtain res w1 where tl: "tool_loop env (get_tool_definitions env w) max_tool_rounds ?m0 None w = (res, w1)"
    by (elim exE)
  show ?thesis
  proof (cases res)
    case (Inl e)
    with tl have "tool_loop env (get_tool_definitions env w) max_tool_rounds ?m0 None w = (Inl e, w1)"
      by simp
    then have "commit_task env task (h, w) = (Inl e, h, w1)" by (rule commit_task_Inl1)
    with assms show ?thesis by simp
  next
    case (Inr p)
    obtain msgs c where p: "p = (msgs, c)" by (cases p)
    obtain res2 w2 where ch: "chat env msgs w1 = (res2, w2)"
      by (cases "chat env msgs w1")
    from tl Inr p have tl': "tool_loop env (get_tool_definitions env w) max_tool_rounds ?m0 None w
        = (Inr (msgs, c), w1)" by simp
    show ?thesis
    proof (cases res2)
      case (Inl e)
      with ch have "chat env msgs w1 = (Inl e, w2)" by simp
      with tl' have "commit_task env task (h, w) = (Inl e, h, w2)" by (rule commit_task_Inl2)
      with assms show ?thesis by simp
    next
      case (Inr chunks)
      with ch have ch': "chat env msgs w1 = (Inr chunks, w2)" by simp
      from tool_loop_shape [OF tl'] obtain body where body: "msgs = ?m0 @ body" "tool_rounds body"
        by blast
      have d: "drop (1 + length h) msgs = user_message task # body"
        unfolding body(1) by simp
      have u: "truncate_tool_result (user_message task) = user_message task"
        by (simp add: truncate_other user_message_def)
      have "commit_task env task (h, w) =
         (Inr (concat chunks),
          h @ map truncate_tool_result (drop (1 + length h) msgs)
            @ (if py_strip (concat chunks) \<noteq> [] then [assistant_message (concat chunks) []] else []),
          w2)"
        using tl' ch' by (rule commit_task_Inr)
      with assms [symmetric] have e: "(Inr reply :: exn + pystr, h', w') =
         (Inr (concat chunks),
          h @ map truncate_tool_result (drop (1 + length h) msgs)
            @ (if py_strip (concat chunks) \<noteq> [] then [assistant_message (concat chunks) []] else []),
          w2)"
        by (rule trans)
      then have r: "concat chunks = reply" by simp
      from e have "h' = h @ map truncate_tool_result (drop (1 + length h) msgs)
            @ (if py_strip (concat chunks) \<noteq> [] then [assistant_message (concat chunks) []] else [])"
        by (rule_tac conjunct1 [OF conjunct2]) (simp only: prod.inject)
      then have "h' = committed h task (map truncate_tool_result body) reply"
        unfolding d r committed_def list.map u by (rule_tac trans) (assumption, simp)
      with body(2) show ?thesis by blast
    qed
  qed
qed

lemma commit_task_error:
  assumes "commit_task env task (h, w) = (Inl e, h', w')"
  shows "h' = h"
proof -
  let ?m0 = "[system_message SYSTEM_PROMPT] @ h @ [user_message task]"
  have "\<exists>res w1. tool_loop env (get_tool_definitions env w) max_tool_rounds ?m0 None w = (res, w1)"
    by (rule surj_pair)
  then obtain res w1 where tl: "tool_loop env (get_tool_definitions env w) max_tool_rounds ?m0 None w = (res, w1)"
    by (elim exE)
  show ?thesis
  proof (cases res)
    case (Inl e1)
    with tl have "tool_loop env (get_tool_definitions env w) max_tool_rounds ?m0 None w = (Inl e1, w1)"
      by simp
    then have "commit_task env task (h, w) = (Inl e1, h, w1)" by (rule commit_task_Inl1)
    with assms show ?thesis by simp
  next
    case (Inr p)
    obtain msgs c where p: "p = (msgs, c)" by (cases p)
    obtain res2 w2 where ch: "chat env msgs w1 = (res2, w2)"
      by (cases "chat env msgs w1")
    from tl Inr p have tl': "tool_loop env (get_tool_definitions env w) max_tool_rounds ?m0 None w
        = (Inr (msgs, c), w1)" by simp
    show ?thesis
    proof (cases res2)
      case (Inl e2)
      with ch have "chat env msgs w1 = (Inl e2, w2)" by simp
      with tl' have "commit_task env task (h, w) = (Inl e2, h, w2)" by (rule commit_task_Inl2)
      with assms show ?thesis by simp
    next
      case (Inr chunks)
      with ch have "chat env msgs w1 = (Inr chunks, w2)" by simp
      with tl' have "commit_task env task (h, w) =
         (Inr (concat chunks),
          h @ map truncate_tool_result (drop (1 + length h) msgs)
            @ (if py_strip (concat chunks) \<noteq> [] then [assistant_message (concat chunks) []] else []),
          w2)"
        by (rule commit_task_Inr)
      with assms show ?thesis by simp
    qed
  qed
qed

lemma execute_task_cases:
  assumes "execute_task env task (h, w) = (r, h', w')"
  shows "(\<exists>e. r = Inl e \<and> h' = h) \<or>
         (\<exists>reply body. r = Inr reply \<and> tool_rounds body \<and>
            trim_conversation_history 6 (committed h task (map truncate_tool_result body) reply)
              = Inr h')"
proof -
  have "\<exists>r1 h1 w1. commit_task env task (h, w) = (r1, h1, w1)"
    by (metis surj_pair)
  then obtain r1 h1 w1 where c: "commit_task env task (h, w) = (r1, h1, w1)"
    by (elim exE)
  show ?thesis
  proof (cases r1)
    case (Inl e)
    with c have c': "commit_task env task (h, w) = (Inl e, h1, w1)" by simp
    then have "h1 = h" by (rule commit_task_error)
    with assms c' have "r = Inl e \<and> h' = h" by (simp add: execute_task_def)
    then show ?thesis by blast
  next
    case (Inr reply)
    with c have c': "commit_task env task (h, w) = (Inr reply, h1, w1)" by simp
    from commit_task_shape [OF c'] obtain body where
      body: "tool_rounds body" "h1 = committed h task (map truncate_tool_result body) reply"
      by blast
    obtain h2 where t: "trim_conversation_history 6 h1 = Inr h2"
      using trim6_total [of h1] by (elim exE)
    with assms c' have "r = Inr reply" "h' = h2" by (simp_all add: execute_task_def)
    with body t have "r = Inr reply \<and> tool_rounds body \<and>
            trim_conversation_history 6 (committed h task (map truncate_tool_result body) reply)
              = Inr h'" by simp
    then show ?thesis by blast
  qed
qed

section \<open>Invariants of a session\<close>

lemma trim6_shape:
  assumes "trim_conversation_history 6 h = Inr h'"
  shows "h' = h \<or> (\<exists>k<count_rounds h. h' = skip_rounds k h)"
  using assms unfolding trim_conversation_history_def by (rule trim_shape)

lemma execute_task_invariant:
  assumes P: "P h"
    and step: "\<And>body reply. tool_rounds body \<Longrightarrow>
                 P (committed h task (map truncate_tool_result body) reply)"
    and skip: "\<And>hc k. P hc \<Longrightarrow> k < count_rounds hc \<Longrightarrow> P (skip_rounds k hc)"
  shows "P (fst (snd (execute_task env task (h, w))))"
proof -
  have "\<exists>r h' w'. execute_task env task (h, w) = (r, h', w')"
    by (metis surj_pair)
  then obtain r h' w' where e: "execute_task env task (h, w) = (r, h', w')"
    by (elim exE)
  from execute_task_cases [OF e] have "P h'"
  proof
    assume "\<exists>e. r = Inl e \<and> h' = h"
    with P show ?thesis by blast
  next
    assume "\<exists>reply body. r = Inr reply \<and> tool_rounds body \<and>
            trim_conversation_history 6 (committed h task (map truncate_tool_result body) reply)
              = Inr h'"
    then obtain reply body where b: "tool_rounds body"
      "trim_conversation_history 6 (committed h task (map truncate_tool_result body) reply) = Inr h'"
      by blast
    let ?hc = "committed h task (map truncate_tool_result body) reply"
    have hc: "P ?hc" using b(1) by (rule step)
    from trim6_shape [OF b(2)] show ?thesis
    proof
      assume "h' = ?hc"
      with hc show ?thesis by simp
    next
      assume "\<exists>k<count_rounds ?hc. h' = skip_rounds k ?hc"
      then obtain k where "k < count_rounds ?hc" "h' = skip_rounds k ?hc" by blast
      with hc show ?thesis by (simp add: skip)
    qed
  qed
  with e show ?thesis by simp
qed

lemma run_tasks_invariant:
  assumes P: "P h"
    and step: "\<And>h task body reply. P h \<Longrightarrow> tool_rounds body \<Longrightarrow>
                 P (committed h task (map truncate_tool_result body) reply)"
    and skip: "\<And>hc k. P hc \<Longrightarrow> k < count_rounds hc \<Longrightarrow> P (skip_rounds k hc)"
  shows "P (fst (run_tasks env tasks (h, w)))"
  using P
proof (induction tasks arbitrary: h w)
  case Nil
  then show ?case by simp
next
  case (Cons task tasks)
  have "\<exists>r h' w'. execute_task env task (h, w) = (r, h', w')"
    by (metis surj_pair)
  then obtain r h' w' where e: "execute_task env task (h, w) = (r, h', w')"
    by (elim exE)
  have "P (fst (snd (execute_task env task (h, w))))"
  proof (rule execute_task_invariant)
    show "P h" by (rule Cons.prems)
  next
    fix body reply assume "tool_rounds body"
    with Cons.prems show "P (committed h task (map truncate_tool_result body) reply)"
      by (rule step)
  next
    fix hc k assume "P hc" "k < count_rounds hc"
    then show "P (skip_rounds k hc)" by (rule skip)
  qed
  with e have "P h'" by simp
  then have "P (fst (run_tasks env tasks (h', w')))" by (rule Cons.IH)
  with e show ?case by simp
qed

subsection \<open>The three invariants\<close>

lemma committed_round:
  "committed h task body reply =
     h @ (user_message task # body
            @ (if py_strip reply \<noteq> [] then [assistant_message reply []] else []))"
  by (simp add: committed_def)

lemma tools_ok_new_round:
  assumes "tool_rounds body"
    and "\<And>a ts. map tool_call_id ts = map (\<lambda>tc. Some (tc_id tc)) (tool_calls a) \<Longrightarrow>
           tool_calls a \<noteq> [] \<Longrightarrow> \<forall>t\<in>set ts. Q t a"
  shows "tools_ok Q (user_message task # body
            @ (if py_strip reply \<noteq> [] then [assistant_message reply []] else []))"
proof -
  have "tools_ok Q ([] @ [user_message task])"
    unfolding tools_ok_snoc by (simp add: tools_ok_Nil user_message_def)
  then have "tools_ok Q [user_message task]" by simp
  with assms(1) have "tools_ok Q ([user_message task] @ body)"
    using assms(2) by (rule tools_ok_append_rounds)
  then have "tools_ok Q (([user_message task] @ body) @ [assistant_message reply []])"
    unfolding tools_ok_snoc by (simp add: assistant_message_def)
  with \<open>tools_ok Q ([user_message task] @ body)\<close> show ?thesis by simp
qed

lemma tools_ok_committed:
  assumes "tools_ok Q h" "tool_rounds body"
    and "\<And>a ts. map tool_call_id ts = map (\<lambda>tc. Some (tc_id tc)) (tool_calls a) \<Longrightarrow>
           tool_calls a \<noteq> [] \<Longrightarrow> \<forall>t\<in>set ts. Q t a"
  shows "tools_ok Q (committed h task body reply)"
proof -
  have "tools_ok Q (user_message task # body
            @ (if py_strip reply \<noteq> [] then [assistant_message reply []] else []))"
    using assms(2,3) by (rule tools_ok_new_round)
  moreover have "starts_user (user_message task # body
            @ (if py_strip reply \<noteq> [] then [assistant_message reply []] else []))"
    by (simp add: starts_user_def user_message_def)
  ultimately show ?thesis
    unfolding committed_round using assms(1) by (intro tools_ok_append_round)
qed

lemma starts_user_committed:
  "h = [] \<or> starts_user h \<Longrightarrow> starts_user (committed h task body reply)"
  by (cases h) (auto simp: committed_def starts_user_def user_message_def)

lemma run_tasks_valid:
  assumes "valid_history h"
  shows "valid_history (fst (run_tasks env tasks (h, w)))"
  using assms
proof (rule run_tasks_invariant)
  fix h :: history and task body reply
  assume h: "valid_history h" and b: "tool_rounds body"
  from b have tb: "tool_rounds (map truncate_tool_result body)" by (rule tool_rounds_truncate)
  have "tools_ok has_calls (committed h task (map truncate_tool_result body) reply)"
    using h tb has_calls_group unfolding valid_history_def by (intro tools_ok_committed) auto
  moreover have "starts_user (committed h task (map truncate_tool_result body) reply)"
    using h unfolding valid_history_def by (intro starts_user_committed) auto
  ultimately show "valid_history (committed h task (map truncate_tool_result body) reply)"
    by (simp add: valid_history_def)
next
  fix hc :: history and k
  assume "valid_history hc" "k < count_rounds hc"
  then show "valid_history (skip_rounds k hc)"
    by (simp add: valid_history_def tools_ok_skip_rounds starts_user_skip)
qed

lemma run_tasks_intact:
  assumes "tools_ok requests h"
  shows "tools_ok requests (fst (run_tasks env tasks (h, w)))"
  using assms
proof (rule run_tasks_invariant)
  fix h :: history and task body reply
  assume h: "tools_ok requests h" and b: "tool_rounds body"
  from b have tb: "tool_rounds (map truncate_tool_result body)" by (rule tool_rounds_truncate)
  show "tools_ok requests (committed h task (map truncate_tool_result body) reply)"
    using h tb requests_group by (intro tools_ok_committed) auto
next
  fix hc :: history and k
  assume "tools_ok requests hc" "k < count_rounds hc"
  then show "tools_ok requests (skip_rounds k hc)"
    by (rule tools_ok_skip_rounds)
qed

lemma set_committed:
  "set (committed h task body reply) \<subseteq>
     set h \<union> {user_message task} \<union> set body \<union> {assistant_message reply []}"
  by (auto simp: committed_def)

lemma run_tasks_set_invariant:
  assumes h: "\<forall>m\<in>set h. P m"
    and u: "\<And>task. P (user_message task)"
    and a: "\<And>reply. P (assistant_message reply [])"
    and b: "\<And>body m. tool_rounds body \<Longrightarrow> m \<in> set body \<Longrightarrow> P (truncate_tool_result m)"
  shows "\<forall>m\<in>set (fst (run_tasks env tasks (h, w))). P m"
  using h
proof (rule run_tasks_invariant)
  fix h :: history and task body reply
  assume h: "\<forall>m\<in>set h. P m" and tb: "tool_rounds body"
  show "\<forall>m\<in>set (committed h task (map truncate_tool_result body) reply). P m"
  proof
    fix m assume "m \<in> set (committed h task (map truncate_tool_result body) reply)"
    with set_committed have "m \<in> set h \<union> {user_message task} \<union> set (map truncate_tool_result body)
        \<union> {assistant_message reply []}" by blast
    then show "P m" using h u a b [OF tb] by auto
  qed
next
  fix hc :: history and k
  assume "\<forall>m\<in>set hc. P m" "k < count_rounds hc"
  then show "\<forall>m\<in>set (skip_rounds k hc). P m"
    using set_skip_rounds by blast
qed

lemma truncate_bound:
  "role (truncate_tool_result m) = Tool \<Longrightarrow>
   length (content (truncate_tool_result m)) \<le> 1500 + length TRUNCATION_MARKER"
  by (auto simp: truncate_tool_result_def)

section \<open>Running the sessions of the tests\<close>

lemma concat_chunks20: "concat (chunks20 s) = s"
proof (induction s rule: chunks20.induct)
  case (1 s)
  show ?case
  proof (cases "s = []")
    case True
    then show ?thesis by (subst chunks20.simps) simp
  next
    case False
    with "1.IH" have "concat (chunks20 (drop 20 s)) = drop 20 s" by simp
    with False show ?thesis by (subst chunks20.simps) simp
  qed
qed

lemma max_tool_rounds_Suc: "max_tool_rounds = Suc (Suc (Suc (Suc (Suc 0))))"
  by (simp add: max_tool_rounds_def eval_nat_numeral)

lemma execute_task_Inr:
  assumes "commit_task env task (h, w) = (Inr reply, hc, w')"
    and "trim_conversation_history 6 hc = Inr h'"
  shows "execute_task env task (h, w) = (Inr reply, h', w')"
  using assms by (simp add: execute_task_def)

lemma execute_task_Inl:
  assumes "commit_task env task (h, w) = (Inl e, hc, w')"
  shows "execute_task env task (h, w) = (Inl e, hc, w')"
  using assms by (simp add: execute_task_def)

lemma trim_small:
  assumes "0 \<le> R" "int (count_rounds h) \<le> R" "total_chars h \<le> B \<or> count_rounds h \<le> 2"
  shows "trim R B h = Inr h"
proof -
  have "round_trim R h = Inr h" using assms(1,2) by (simp add: round_trim_nonneg)
  moreover have "budget_trim B h = h"
    unfolding budget_trim_def using assms(3) by (intro budget_loop_stop) auto
  ultimately show ?thesis by (simp add: trim_def)
qed

lemma length_long_result: "length long_result = 1501"
  by (simp add: long_result_def)

lemma search_loop:
  "tool_loop mock_env (get_tool_definitions mock_env search_world) max_tool_rounds
      ([system_message SYSTEM_PROMPT] @ [] @ [user_message [104, 105]]) None search_world =
   (Inr ([system_message SYSTEM_PROMPT, user_message [104, 105],
          assistant_message [115] [search_call], tool_message long_result ''call_1''],
         Some [65]),
    search_world\<lparr>call_idx := 2\<rparr>)"
proof -
  have "long_result \<noteq> []" using length_long_result by auto
  then show ?thesis
    by (simp add: max_tool_rounds_Suc mock_env_def mock_chat_complete_def mock_execute_skill_def
        search_world_def search_call_def tool_content_def tool_result_str_def)
qed

lemma search_chat:
  "\<exists>chunks. chat mock_env msgs (search_world\<lparr>call_idx := 2\<rparr>)
       = (Inr chunks, search_world\<lparr>call_idx := 3\<rparr>) \<and> concat chunks = [111, 107]"
  by (simp add: mock_env_def mock_chat_def search_world_def concat_chunks20)

lemma search_commit:
  "commit_task mock_env [104, 105] ([], search_world) =
     (Inr [111, 107], search_history, search_world\<lparr>call_idx := 3\<rparr>)"
proof -
  from search_chat obtain chunks where c:
    "chat mock_env [system_message SYSTEM_PROMPT, user_message [104, 105],
          assistant_message [115] [search_call], tool_message long_result ''call_1'']
       (search_world\<lparr>call_idx := 2\<rparr>) = (Inr chunks, search_world\<lparr>call_idx := 3\<rparr>)"
    "concat chunks = [111, 107]" by blast
  have "py_strip [111, 107] \<noteq> []" by (simp add: py_strip_def py_isspace_def)
  moreover have "long_result \<noteq> []" using length_long_result by auto
  ultimately show ?thesis using commit_task_Inr [OF search_loop c(1)] c(2)
    by (simp add: search_history_def truncate_tool_result_def user_message_def
        assistant_message_def tool_message_def length_long_result)
qed

lemma search_trim: "trim_conversation_history 6 search_history = Inr search_history"
  unfolding trim_conversation_history_def
  by (rule trim_small)
     (simp_all add: search_history_def count_rounds_def user_message_def assistant_message_def
        tool_message_def)

lemma search_turn:
  "execute_task mock_env [104, 105] ([], search_world) =
     (Inr [111, 107], search_history, search_world\<lparr>call_idx := 3\<rparr>)"
  using search_commit search_trim by (rule execute_task_Inr)

section \<open>The end-to-end engine: what a chat stores\<close>

lemma e2e_commit_cases:
  assumes "e2e_commit env prompt q (h, w) = (r, h', w')"
  shows "(\<exists>e. r = Inl e \<and> h' = h) \<or>
         (\<exists>reply. r = Inr reply \<and> h' = h @ [user_message q, assistant_message reply []])"
proof -
  let ?m = "[system_message prompt] @ h @ [user_message q]"
  have "\<exists>res w1. chat_complete env ?m None w = (res, w1)" by (rule surj_pair)
  then obtain res w1 where c: "chat_complete env ?m None w = (res, w1)" by (elim exE)
  show ?thesis
  proof (cases res)
    case (Inl e)
    with c assms have "r = Inl e \<and> h' = h" by (auto simp: e2e_commit_def)
    then show ?thesis by blast
  next
    case (Inr resp)
    with c assms have "r = Inr (resp_content resp) \<and>
        h' = h @ [user_message q, assistant_message (resp_content resp) []]"
      by (auto simp: e2e_commit_def)
    then show ?thesis by blast
  qed
qed

lemma e2e_chat_cases:
  assumes "e2e_chat env prompt R q (h, w) = (r, h', w')"
  shows "(\<exists>e. r = Inl e \<and> h' = h) \<or>
         (\<exists>e reply. r = Inl e \<and> h' = h @ [user_message q, assistant_message reply []]) \<or>
         (\<exists>reply. r = Inr reply \<and>
            trim_history R (h @ [user_message q, assistant_message reply []]) = Inr h')"
proof -
  have "\<exists>r1 h1 w1. e2e_commit env prompt q (h, w) = (r1, h1, w1)" by (metis surj_pair)
  then obtain r1 h1 w1 where c: "e2e_commit env prompt q (h, w) = (r1, h1, w1)" by (elim exE)
  from e2e_commit_cases [OF c] show ?thesis
  proof
    assume "\<exists>e. r1 = Inl e \<and> h1 = h"
    then obtain e where "r1 = Inl e" "h1 = h" by blast
    with c assms have "r = Inl e \<and> h' = h" by (simp add: e2e_chat_def)
    then show ?thesis by blast
  next
    assume "\<exists>reply. r1 = Inr reply \<and> h1 = h @ [user_message q, assistant_message reply []]"
    then obtain reply where r1: "r1 = Inr reply"
      "h1 = h @ [user_message q, assistant_message reply []]" by blast
    show ?thesis
    proof (cases "trim_history R h1")
      case (Inl e)
      with c assms r1 have "r = Inl e \<and> h' = h @ [user_message q, assistant_message reply []]"
        by (simp add: e2e_chat_def)
      then show ?thesis by blast
    next
      case (Inr h2)
      with c assms r1 have "r = Inr reply \<and>
          trim_history R (h @ [user_message q, assistant_message reply []]) = Inr h'"
        by (simp add: e2e_chat_def)
      then show ?thesis by blast
    qed
  qed
qed

lemma run_chats_invariant:
  assumes P: "P h"
    and step: "\<And>h q reply. P h \<Longrightarrow> P (h @ [user_message q, assistant_message reply []])"
    and skip: "\<And>hc k. P hc \<Longrightarrow> k < count_rounds hc \<Longrightarrow> P (skip_rounds k hc)"
  shows "P (fst (run_chats env prompt R qs (h, w)))"
  using P
proof (induction qs arbitrary: h w)
  case Nil
  then show ?case by simp
next
  case (Cons q qs)
  have "\<exists>r h' w'. e2e_chat env prompt R q (h, w) = (r, h', w')" by (metis surj_pair)
  then obtain r h' w' where e: "e2e_chat env prompt R q (h, w) = (r, h', w')" by (elim exE)
  from e2e_chat_cases [OF e] have "P h'"
  proof (elim disjE exE conjE)
    fix e assume "h' = h"
    with Cons.prems show ?thesis by simp
  next
    fix e reply assume "h' = h @ [user_message q, assistant_message reply []]"
    with Cons.prems show ?thesis by (simp add: step)
  next
    fix reply
    assume t: "trim_history R (h @ [user_message q, assistant_message reply []]) = Inr h'"
    let ?hc = "h @ [user_message q, assistant_message reply []]"
    have hc: "P ?hc" using Cons.prems by (rule step)
    from trim_history_shape [OF t] show ?thesis
    proof
      assume "h' = ?hc"
      with hc show ?thesis by simp
    next
      assume "\<exists>k<count_rounds ?hc. h' = skip_rounds k ?hc"
      then obtain k where "k < count_rounds ?hc" "h' = skip_rounds k ?hc" by blast
      with hc show ?thesis by (simp add: skip)
    qed
  qed
  then have "P (fst (run_chats env prompt R qs (h', w')))" by (rule Cons.IH)
  with e show ?case by simp
qed

lemma run_chats_set_invariant:
  assumes h: "\<forall>m\<in>set h. P m"
    and u: "\<And>q. P (user_message q)"
    and a: "\<And>reply. P (assistant_message reply [])"
  shows "\<forall>m\<in>set (fst (run_chats env prompt R qs (h, w))). P m"
  using h
proof (rule run_chats_invariant)
  fix h :: history and q reply
  assume "\<forall>m\<in>set h. P m"
  then show "\<forall>m\<in>set (h @ [user_message q, assistant_message reply []]). P m"
    using u a by auto
next
  fix hc :: history and k
  assume "\<forall>m\<in>set hc. P m" "k < count_rounds hc"
  then show "\<forall>m\<in>set (skip_rounds k hc). P m"
    using set_skip_rounds by blast
qed

section \<open>The claims about the retention trimmer\<close>

text \<open>
  Claim C4. The trim is idempotent. \<^verbatim>\<open>max_rounds\<close> is a ceiling on a count of rounds,
  so it is not negative (the callers pass 6). For every history, every byte budget and
  every such round limit the trim returns a history, and trimming that history again with
  the same bounds returns it unchanged.
\<close>

theorem trim_idempotent:
  "0 \<le> R \<Longrightarrow> \<exists>h'. trim R B h = Inr h' \<and> trim R B h' = Inr h'"
  using trim_total [of R B h] trim_idem [of R B h] by blast

text \<open>An instance: three one-message rounds under a limit of two rounds.\<close>

theorem trim_idempotent_witness:
  "trim 2 24000 [user_message [1], user_message [2], user_message [3]]
     = Inr [user_message [2], user_message [3]]
   \<and> trim 2 24000 [user_message [2], user_message [3]]
     = Inr [user_message [2], user_message [3]]"
proof -
  have a: "trim 2 24000 [user_message [1], user_message [2], user_message [3]]
     = Inr [user_message [2], user_message [3]]"
    by code_simp
  from trim_idempotent [of 2 24000 "[user_message [1], user_message [2], user_message [3]]"]
  show ?thesis unfolding a by simp
qed

text \<open>
  Claim C5. The byte-budget stage never leaves fewer than two rounds of a history that
  has at least two, whatever the budget and the running total: the loop of the stage,
  the stage as the trim calls it, and the whole trim under a round limit of at least two.
  A history of at most two rounds is returned as it is, over the budget or not.
\<close>

theorem budget_floor:
  "(2 \<le> count_rounds h \<longrightarrow> 2 \<le> count_rounds (budget_loop B t h))
   \<and> (count_rounds h \<le> 2 \<longrightarrow> budget_loop B t h = h)
   \<and> (2 \<le> count_rounds h \<longrightarrow> 2 \<le> count_rounds (budget_trim B h))
   \<and> (2 \<le> R \<and> 2 \<le> count_rounds h \<and> trim R B h = Inr h' \<longrightarrow> 2 \<le> count_rounds h')"
proof -
  have "2 \<le> count_rounds h'" if "2 \<le> R" "2 \<le> count_rounds h" "trim R B h = Inr h'"
  proof -
    from that(2) have "h \<noteq> []" by (auto simp: count_rounds_def)
    with that(3) obtain h1 where h1: "round_trim R h = Inr h1" and h': "h' = budget_trim B h1"
      by (auto simp: trim_def split: sum.splits)
    from that(1,2) h1 have "2 \<le> count_rounds h1" by (rule round_trim_keeps_two)
    then show ?thesis unfolding h' budget_trim_def by (rule budget_loop_floor)
  qed
  then show ?thesis
    by (auto simp: budget_loop_floor budget_loop_small budget_trim_def)
qed

text \<open>
  An instance: three rounds of two characters each under a budget of one character. One
  round is evicted and the two that remain, four characters, are kept.
\<close>

theorem budget_floor_witness:
  "count_rounds [user_message [1, 1], user_message [2, 2], user_message [3, 3]] = 3
   \<and> budget_trim 1 [user_message [1, 1], user_message [2, 2], user_message [3, 3]]
       = [user_message [2, 2], user_message [3, 3]]
   \<and> total_chars [user_message [2, 2], user_message [3, 3]] = 4
   \<and> 2 \<le> count_rounds (budget_trim 1 [user_message [1, 1], user_message [2, 2], user_message [3, 3]])
   \<and> budget_loop 1 4 [user_message [2, 2], user_message [3, 3]]
       = [user_message [2, 2], user_message [3, 3]]"
proof -
  let ?h = "[user_message [1, 1], user_message [2, 2], user_message [3, 3]]"
  have c: "count_rounds ?h = 3"
    by (simp add: count_rounds_def user_message_def)
  have c2: "count_rounds [user_message [2, 2], user_message [3, 3]] = 2"
    by (simp add: count_rounds_def user_message_def)
  have b: "budget_trim 1 ?h = [user_message [2, 2], user_message [3, 3]]"
    by code_simp
  have t: "total_chars [user_message [2, 2], user_message [3, 3]] = 4"
    by (simp add: total_chars_def user_message_def)
  from budget_floor [of ?h 1 4 2 "[user_message [2, 2], user_message [3, 3]]"]
       budget_floor [of "[user_message [2, 2], user_message [3, 3]]" 1 4 2 "[]"] c c2 b t
  show ?thesis by simp
qed

section \<open>The claim about the validator\<close>

text \<open>
  Claim C8, as amended. For a history that is not empty and whose first message is not
  a user message, the validator reports a violation. For a tool message at position
  \<open>i\<close> the validator reports a violation unless, scanning backward within the same
  round (stopping at the previous user message), there is an assistant message whose
  list of invocations is not empty; the invocation ids are not compared.
\<close>

theorem validate_rules:
  "(h \<noteq> [] \<and> role (h ! 0) \<noteq> User \<longrightarrow>
      FirstNotUser (role (h ! 0)) \<in> set (validate_message_sequence h))
   \<and> (\<forall>i<length h. role (h ! i) = Tool \<longrightarrow>
        (ToolWithoutCall i \<in> set (validate_message_sequence h) \<longleftrightarrow>
           \<not> (\<exists>j<i. role (h ! j) = Assistant \<and> tool_calls (h ! j) \<noteq> [] \<and>
                  (\<forall>k. j < k \<and> k < i \<longrightarrow> role (h ! k) \<noteq> User))))"
  by (simp add: first_violation_iff tool_violation_iff found_tc_prefix_iff)

text \<open>
  An instance: a history that starts with an assistant message and whose first tool
  message has no assistant message with invocations before it.
\<close>

theorem validate_rules_witness:
  "validate_message_sequence
     [assistant_message [] [], tool_message [1] ''a'', user_message [2],
      assistant_message [] [\<lparr>tc_id = ''b'', tc_name = ''web-search'', tc_arguments = []\<rparr>],
      tool_message [3] ''b'']
   = [FirstNotUser Assistant, ToolWithoutCall 1]
   \<and> FirstNotUser Assistant \<in> set (validate_message_sequence
     [assistant_message [] [], tool_message [1] ''a'', user_message [2],
      assistant_message [] [\<lparr>tc_id = ''b'', tc_name = ''web-search'', tc_arguments = []\<rparr>],
      tool_message [3] ''b''])"
proof -
  let ?h = "[assistant_message [] [], tool_message [1] ''a'', user_message [2],
      assistant_message [] [\<lparr>tc_id = ''b'', tc_name = ''web-search'', tc_arguments = []\<rparr>],
      tool_message [3] ''b'']"
  have v: "validate_message_sequence ?h = [FirstNotUser Assistant, ToolWithoutCall 1]"
    by code_simp
  have "?h \<noteq> [] \<and> role (?h ! 0) \<noteq> User" "role (?h ! 0) = Assistant"
    by (simp_all add: assistant_message_def)
  with validate_rules [of ?h] v show ?thesis by simp
qed

text \<open>
  The claim as stated asks for an assistant message whose invocations include the
  invocation id of the tool message. The validator accepts a tool message with the id
  \<open>b\<close> after an assistant message that requested only \<open>a\<close>.
\<close>

theorem validate_ignores_ids_counterexample:
  "validate_message_sequence
     [user_message [1],
      assistant_message [] [\<lparr>tc_id = ''a'', tc_name = ''web-search'', tc_arguments = []\<rparr>],
      tool_message [2] ''b''] = []
   \<and> \<not> requested_in_round (Some ''b'')
        (rev (take 2 [user_message [1],
           assistant_message [] [\<lparr>tc_id = ''a'', tc_name = ''web-search'', tc_arguments = []\<rparr>],
           tool_message [2] ''b'']))"
  by code_simp

end
